theory Spec2Isabelle
  imports Main "HOL-Library.Word" "HOL-Library.AList"
begin

unbundle bit_operations_syntax

section \<open>Numbers of the layout arithmetic\<close>

text \<open>
  The layout compiler of \<^verbatim>\<open>src/struct.ts\<close> computes sizes, alignments and element
  indices with JavaScript numbers. Every quantity it handles is a non-negative integer
  (exact below \<open>2^53\<close>, which is assumed throughout) or the not-a-number value that a
  division by zero or an arithmetic operation on \<^verbatim>\<open>undefined\<close> produces.
\<close>

datatype number = Num nat | NaN

text \<open>
  \<^verbatim>\<open>Math.ceil(size / alignment) * alignment\<close>. With \<open>alignment = 0\<close> the quotient is
  \<^verbatim>\<open>NaN\<close> (for \<open>0 / 0\<close>) or \<^verbatim>\<open>Infinity\<close>, and both give \<^verbatim>\<open>NaN\<close> once multiplied by
  \<open>0\<close>.
\<close>

fun alignTo :: "number \<Rightarrow> number \<Rightarrow> number" where
  "alignTo (Num s) (Num a) = (if a = 0 then NaN else Num (((s + a - 1) div a) * a))"
| "alignTo _ _ = NaN"

text \<open>\<^verbatim>\<open>Math.max(a, b)\<close>: \<^verbatim>\<open>NaN\<close> as soon as one argument is.\<close>

fun Math_max :: "number \<Rightarrow> number \<Rightarrow> number" where
  "Math_max (Num a) (Num b) = Num (max a b)"
| "Math_max _ _ = NaN"

text \<open>
  \<^verbatim>\<open>size / elementSize\<close>, as \<^verbatim>\<open>struct\<close> uses it: the dividend has just been aligned to
  the divisor, so the quotient is an integer whenever both are numbers (lemma
  \<open>divide_alignTo\<close> below). The branch of a fractional or infinite quotient is never
  taken by \<^verbatim>\<open>struct\<close>; it is \<open>NaN\<close> here.
\<close>

fun number_divide :: "number \<Rightarrow> number \<Rightarrow> number" where
  "number_divide (Num a) (Num b) = (if b \<noteq> 0 \<and> b dvd a then Num (a div b) else NaN)"
| "number_divide _ _ = NaN"

fun number_times :: "number \<Rightarrow> nat \<Rightarrow> number" where
  "number_times (Num a) c = Num (a * c)"
| "number_times NaN c = NaN"

fun number_plus :: "number \<Rightarrow> number \<Rightarrow> number" where
  "number_plus (Num a) (Num b) = Num (a + b)"
| "number_plus _ _ = NaN"

section \<open>The type registry\<close>

text \<open>The keys of the \<^verbatim>\<open>TypedArray\<close> object, one per typed-array constructor.\<close>

datatype PropertyType = i8 | u8 | u8_clamped | i16 | u16 | i32 | u32 | i64 | u64 | f32 | f64

text \<open>\<^verbatim>\<open>BYTES_PER_ELEMENT\<close> of each constructor.\<close>

fun BYTES_PER_ELEMENT :: "PropertyType \<Rightarrow> nat" where
  "BYTES_PER_ELEMENT i8 = 1"
| "BYTES_PER_ELEMENT u8 = 1"
| "BYTES_PER_ELEMENT u8_clamped = 1"
| "BYTES_PER_ELEMENT i16 = 2"
| "BYTES_PER_ELEMENT u16 = 2"
| "BYTES_PER_ELEMENT i32 = 4"
| "BYTES_PER_ELEMENT u32 = 4"
| "BYTES_PER_ELEMENT i64 = 8"
| "BYTES_PER_ELEMENT u64 = 8"
| "BYTES_PER_ELEMENT f32 = 4"
| "BYTES_PER_ELEMENT f64 = 8"

text \<open>
  What the property access \<^verbatim>\<open>TypedArray[type]\<close> evaluates to for a string \<open>type\<close>: the
  constructor stored under an own key of the object literal; a value inherited from
  \<^verbatim>\<open>Object.prototype\<close> (the literal's prototype), which is no typed-array constructor;
  or \<^verbatim>\<open>undefined\<close> (\<open>NoProperty\<close>).
\<close>

datatype property = Constructor PropertyType | Inherited | NoProperty

definition TypedArray_keys :: "(string \<times> PropertyType) list" where
  "TypedArray_keys =
     [(''i8'', i8), (''u8'', u8), (''u8_clamped'', u8_clamped), (''i16'', i16),
      (''u16'', u16), (''i32'', i32), (''u32'', u32), (''i64'', i64), (''u64'', u64),
      (''f32'', f32), (''f64'', f64)]"

definition Object_prototype_keys :: "string list" where
  "Object_prototype_keys =
     [''constructor'', ''__defineGetter__'', ''__defineSetter__'', ''hasOwnProperty'',
      ''__lookupGetter__'', ''__lookupSetter__'', ''isPrototypeOf'',
      ''propertyIsEnumerable'', ''toString'', ''valueOf'', ''__proto__'',
      ''toLocaleString'']"

definition TypedArray :: "string \<Rightarrow> property" where
  "TypedArray k =
     (case map_of TypedArray_keys k of
        Some c \<Rightarrow> Constructor c
      | None \<Rightarrow> if k \<in> set Object_prototype_keys then Inherited else NoProperty)"

section \<open>Errors\<close>

text \<open>
  The two errors \<^verbatim>\<open>struct.ts\<close> throws itself, named after their messages
  (\<^verbatim>\<open>Not enough space in buffer\<close>, \<^verbatim>\<open>Invalid alignment for struct\<close>), and the two
  the JavaScript runtime throws under it: \<^verbatim>\<open>TypeError\<close> (a property read on
  \<^verbatim>\<open>undefined\<close>, a call of a non-constructor, a number stored where a BigInt is
  required or the reverse) and \<^verbatim>\<open>RangeError\<close> (a typed array that does not fit its
  buffer, a \<^verbatim>\<open>set\<close> past the end of its target).
\<close>

datatype error = NotEnoughSpace | InvalidAlignment | TypeError | RangeError

section \<open>The layout compiler\<close>

record Member =
  type :: string
  name :: string
  count :: nat

text \<open>
  A compiled member, \<^verbatim>\<open>{type, count, index}\<close>. The fields carry a prefix because a
  record cannot share field names with \<open>Member\<close>.
\<close>

record TemplateMember =
  m_type :: string
  m_count :: nat
  m_index :: number

text \<open>
  \<^verbatim>\<open>StructTemplate\<close>. The schema is a JavaScript object: an association list in
  insertion order, in which an assignment to an existing key replaces the value in
  place (\<open>AList.update\<close>). Field names are taken to be ordinary keys: for the key
  \<^verbatim>\<open>__proto__\<close> and for canonical array indices a JavaScript object behaves
  differently (no own property, another enumeration order).
\<close>

record StructTemplate =
  size_bytes :: number
  alignment :: number
  schema :: "(string \<times> TemplateMember) list"

text \<open>
  \<^verbatim>\<open>TypedArray[type].BYTES_PER_ELEMENT\<close>: a \<^verbatim>\<open>TypeError\<close> when the lookup is
  \<^verbatim>\<open>undefined\<close>; \<^verbatim>\<open>undefined\<close> for an inherited value, which every arithmetic
  operation of \<^verbatim>\<open>struct\<close> then converts to \<open>NaN\<close>.
\<close>

fun elementSize_of :: "property \<Rightarrow> error + number" where
  "elementSize_of (Constructor c) = Inr (Num (BYTES_PER_ELEMENT c))"
| "elementSize_of Inherited = Inr NaN"
| "elementSize_of NoProperty = Inl TypeError"

text \<open>One iteration of the loop of \<^verbatim>\<open>struct\<close>.\<close>

definition struct_step :: "StructTemplate \<Rightarrow> Member \<Rightarrow> error + StructTemplate" where
  "struct_step result f =
     (case elementSize_of (TypedArray (type f)) of
        Inl e \<Rightarrow> Inl e
      | Inr elementSize \<Rightarrow>
          let size1 = alignTo (size_bytes result) elementSize;
              alignment1 = Math_max (alignment result) elementSize;
              member = \<lparr>m_type = type f, m_count = count f,
                        m_index = number_divide size1 elementSize\<rparr>
          in Inr \<lparr>size_bytes = number_plus size1 (number_times elementSize (count f)),
                  alignment = alignment1,
                  schema = AList.update (name f) member (schema result)\<rparr>)"

fun struct_loop :: "StructTemplate \<Rightarrow> Member list \<Rightarrow> error + StructTemplate" where
  "struct_loop result [] = Inr result"
| "struct_loop result (f # fs) =
     (case struct_step result f of
        Inl e \<Rightarrow> Inl e
      | Inr result' \<Rightarrow> struct_loop result' fs)"

definition struct :: "Member list \<Rightarrow> error + StructTemplate" where
  "struct ms =
     (case struct_loop \<lparr>size_bytes = Num 0, alignment = Num 0, schema = []\<rparr> ms of
        Inl e \<Rightarrow> Inl e
      | Inr result \<Rightarrow>
          Inr (result\<lparr>size_bytes := alignTo (size_bytes result) (alignment result)\<rparr>))"

section \<open>IEEE 754 numbers\<close>

text \<open>
  A JavaScript number held by a structure is an IEEE 754 binary64 datum, modelled by
  its bit pattern; the one \<^verbatim>\<open>NaN\<close> value of the language is the pattern \<open>NaN64\<close>.
  Typed arrays store elements in the byte order of the platform, taken to be
  little-endian (the order the repository's tests read back with \<^verbatim>\<open>DataView\<close>).
\<close>

definition NaN64 :: "64 word" where
  "NaN64 = 0x7FF8000000000000"

definition sign64 :: "64 word \<Rightarrow> nat" where
  "sign64 w = unat w div 2 ^ 63"

definition exp64 :: "64 word \<Rightarrow> nat" where
  "exp64 w = (unat w div 2 ^ 52) mod 2048"

definition man64 :: "64 word \<Rightarrow> nat" where
  "man64 w = unat w mod 2 ^ 52"

definition is_NaN64 :: "64 word \<Rightarrow> bool" where
  "is_NaN64 w = (exp64 w = 2047 \<and> man64 w \<noteq> 0)"

text \<open>
  Significand and exponent of a finite number: its magnitude is
  \<open>sig64 w * 2 ^ ex64 w / 2 ^ 1075\<close>.
\<close>

definition sig64 :: "64 word \<Rightarrow> nat" where
  "sig64 w = (if exp64 w = 0 then man64 w else 2 ^ 52 + man64 w)"

definition ex64 :: "64 word \<Rightarrow> nat" where
  "ex64 w = max 1 (exp64 w)"

text \<open>\<open>n / 2 ^ k\<close> rounded to the nearest integer, ties to even.\<close>

definition round_shift :: "nat \<Rightarrow> nat \<Rightarrow> nat" where
  "round_shift n k =
     (let q = n div 2 ^ k; r = n mod 2 ^ k
      in if 2 ^ k < 2 * r \<or> (2 * r = 2 ^ k \<and> odd q) then q + 1 else q)"

fun bit_length :: "nat \<Rightarrow> nat" where
  "bit_length n = (if n = 0 then 0 else Suc (bit_length (n div 2)))"

declare bit_length.simps [simp del]

text \<open>
  The number with the value of an integer \<open>i\<close>, exact for \<open>\<bar>i\<bar> < 2^53\<close>; it is applied
  to elements of at most 32 bits.
\<close>

definition double_of_int :: "int \<Rightarrow> 64 word" where
  "double_of_int i =
     (if i = 0 then 0
      else let a = nat \<bar>i\<bar>; k = bit_length a
           in of_nat ((if i < 0 then 2 ^ 63 else 0) + (1022 + k) * 2 ^ 52
                      + (a * 2 ^ (53 - k) - 2 ^ 52)))"

text \<open>The integer part of a number, \<open>0\<close> for \<^verbatim>\<open>NaN\<close> and the infinities.\<close>

definition truncate64 :: "64 word \<Rightarrow> int" where
  "truncate64 w =
     (if exp64 w = 2047 then 0
      else let magnitude = (if 1075 \<le> ex64 w then sig64 w * 2 ^ (ex64 w - 1075)
                            else sig64 w div 2 ^ (1075 - ex64 w))
           in if sign64 w = 1 then - int magnitude else int magnitude)"

text \<open>\<^verbatim>\<open>ToUint8Clamp\<close>: clamp to \<open>0..255\<close>, round to nearest, ties to even.\<close>

definition ToUint8Clamp :: "64 word \<Rightarrow> nat" where
  "ToUint8Clamp w =
     (if is_NaN64 w \<or> sign64 w = 1 then 0
      else if exp64 w = 2047 then 255
      else if 1075 \<le> ex64 w then min 255 (sig64 w * 2 ^ (ex64 w - 1075))
      else min 255 (round_shift (sig64 w) (1075 - ex64 w)))"

text \<open>binary64 to binary32, round to nearest, ties to even (what a \<^verbatim>\<open>Float32Array\<close> stores).\<close>

definition double_to_float :: "64 word \<Rightarrow> 32 word" where
  "double_to_float w =
     (if is_NaN64 w then 0x7FC00000
      else if exp64 w = 2047 then of_nat (sign64 w * 2 ^ 31 + 255 * 2 ^ 23)
      else let body = (if 897 \<le> ex64 w
                       then (ex64 w - 897) * 2 ^ 23 + round_shift (sig64 w) 29
                       else round_shift (sig64 w) (29 + (897 - ex64 w)))
           in of_nat (sign64 w * 2 ^ 31 + min body (255 * 2 ^ 23)))"

text \<open>binary32 to binary64, exact (what reading a \<^verbatim>\<open>Float32Array\<close> element yields).\<close>

definition float_to_double :: "32 word \<Rightarrow> 64 word" where
  "float_to_double p =
     (let s = unat p div 2 ^ 31; e = (unat p div 2 ^ 23) mod 256; m = unat p mod 2 ^ 23
      in if e = 255 then (if m = 0 then of_nat (s * 2 ^ 63 + 2047 * 2 ^ 52) else NaN64)
         else if e = 0
         then (if m = 0 then of_nat (s * 2 ^ 63)
               else of_nat (s * 2 ^ 63 + (873 + bit_length m) * 2 ^ 52
                            + (m * 2 ^ (53 - bit_length m) - 2 ^ 52)))
         else of_nat (s * 2 ^ 63 + (e + 896) * 2 ^ 52 + m * 2 ^ 29))"

section \<open>Element values and their bytes\<close>

type_synonym byte = "8 word"

text \<open>
  What an element access yields or takes: a number, a BigInt, or \<^verbatim>\<open>undefined\<close>
  (an index outside the array, a property the instance lacks).
\<close>

datatype element = Number "64 word" | BigInt int | Undefined

fun le_bytes :: "nat \<Rightarrow> nat \<Rightarrow> byte list" where
  "le_bytes 0 v = []"
| "le_bytes (Suc n) v = of_nat (v mod 256) # le_bytes n (v div 256)"

fun le_nat :: "byte list \<Rightarrow> nat" where
  "le_nat [] = 0"
| "le_nat (b # bs) = unat b + 256 * le_nat bs"

text \<open>Two's complement reading of \<open>v < 2 ^ bits\<close>.\<close>

definition to_signed :: "nat \<Rightarrow> nat \<Rightarrow> int" where
  "to_signed bits v = (if 2 ^ (bits - 1) \<le> v then int v - 2 ^ bits else int v)"

text \<open>The value of the element stored in \<open>BYTES_PER_ELEMENT c\<close> bytes.\<close>

fun RawBytesToNumeric :: "PropertyType \<Rightarrow> byte list \<Rightarrow> element" where
  "RawBytesToNumeric i8 bs = Number (double_of_int (to_signed 8 (le_nat bs)))"
| "RawBytesToNumeric u8 bs = Number (double_of_int (int (le_nat bs)))"
| "RawBytesToNumeric u8_clamped bs = Number (double_of_int (int (le_nat bs)))"
| "RawBytesToNumeric i16 bs = Number (double_of_int (to_signed 16 (le_nat bs)))"
| "RawBytesToNumeric u16 bs = Number (double_of_int (int (le_nat bs)))"
| "RawBytesToNumeric i32 bs = Number (double_of_int (to_signed 32 (le_nat bs)))"
| "RawBytesToNumeric u32 bs = Number (double_of_int (int (le_nat bs)))"
| "RawBytesToNumeric i64 bs = BigInt (to_signed 64 (le_nat bs))"
| "RawBytesToNumeric u64 bs = BigInt (int (le_nat bs))"
| "RawBytesToNumeric f32 bs = Number (float_to_double (of_nat (le_nat bs)))"
| "RawBytesToNumeric f64 bs =
     Number (if is_NaN64 (of_nat (le_nat bs)) then NaN64 else of_nat (le_nat bs))"

text \<open>
  \<^verbatim>\<open>ToNumber\<close> and \<^verbatim>\<open>ToBigInt\<close> of the value assigned to an element: a BigInt is no
  number, and neither a number nor \<^verbatim>\<open>undefined\<close> is a BigInt.
\<close>

fun ToNumber :: "element \<Rightarrow> error + 64 word" where
  "ToNumber (Number w) = Inr w"
| "ToNumber Undefined = Inr NaN64"
| "ToNumber (BigInt i) = Inl TypeError"

fun ToBigInt :: "element \<Rightarrow> error + int" where
  "ToBigInt (BigInt i) = Inr i"
| "ToBigInt (Number w) = Inl TypeError"
| "ToBigInt Undefined = Inl TypeError"

text \<open>The raw bytes of a number in each number-typed array.\<close>

fun NumberToRawBytes :: "PropertyType \<Rightarrow> 64 word \<Rightarrow> byte list" where
  "NumberToRawBytes u8_clamped w = le_bytes 1 (ToUint8Clamp w)"
| "NumberToRawBytes f32 w = le_bytes 4 (unat (double_to_float w))"
| "NumberToRawBytes f64 w = le_bytes 8 (unat (if is_NaN64 w then NaN64 else w))"
| "NumberToRawBytes c w =
     le_bytes (BYTES_PER_ELEMENT c) (nat (truncate64 w mod 2 ^ (8 * BYTES_PER_ELEMENT c)))"

definition is_BigInt_type :: "PropertyType \<Rightarrow> bool" where
  "is_BigInt_type c = (c = i64 \<or> c = u64)"

text \<open>Conversion of an assigned value to the bytes an array of type \<open>c\<close> stores.\<close>

definition NumericToRawBytes :: "PropertyType \<Rightarrow> element \<Rightarrow> error + byte list" where
  "NumericToRawBytes c v =
     (if is_BigInt_type c
      then (case ToBigInt v of Inl e \<Rightarrow> Inl e | Inr i \<Rightarrow> Inr (le_bytes 8 (nat (i mod 2 ^ 64))))
      else (case ToNumber v of Inl e \<Rightarrow> Inl e | Inr w \<Rightarrow> Inr (NumberToRawBytes c w)))"

section \<open>Buffers and typed arrays\<close>

text \<open>
  The heap holds the \<^verbatim>\<open>ArrayBuffer\<close>s, addressed by their position; an allocation
  appends one. A typed array is a window on a buffer: \<open>ta_length\<close> elements of type
  \<open>ta_type\<close> from byte \<open>ta_byteOffset\<close> on (the fields carry a prefix because
  \<open>length\<close> is the length of a list). The language only builds windows that lie
  within their buffer (\<open>ta_ok\<close>).
\<close>

type_synonym heap = "byte list list"

record TypedArrayView =
  ta_buffer :: nat
  ta_byteOffset :: nat
  ta_length :: nat
  ta_type :: PropertyType

definition ta_ok :: "heap \<Rightarrow> TypedArrayView \<Rightarrow> bool" where
  "ta_ok h ta =
     (ta_buffer ta < length h \<and>
      ta_byteOffset ta + ta_length ta * BYTES_PER_ELEMENT (ta_type ta)
        \<le> length (h ! ta_buffer ta))"

text \<open>
  The buffer argument of \<^verbatim>\<open>read\<close> and \<^verbatim>\<open>write\<close>: an \<^verbatim>\<open>ArrayBuffer\<close>, or a view
  (\<^verbatim>\<open>ArrayBuffer.isView\<close>) with its buffer, byte offset and byte length.
\<close>

datatype ArrayBufferLike = ArrayBuffer nat | ArrayBufferView nat nat nat

fun byteLength :: "heap \<Rightarrow> ArrayBufferLike \<Rightarrow> nat" where
  "byteLength h (ArrayBuffer b) = length (h ! b)"
| "byteLength h (ArrayBufferView b off len) = len"

definition load :: "byte list \<Rightarrow> nat \<Rightarrow> nat \<Rightarrow> byte list" where
  "load bs pos n = take n (drop pos bs)"

definition store :: "byte list \<Rightarrow> nat \<Rightarrow> byte list \<Rightarrow> byte list" where
  "store bs pos new = take pos bs @ new @ drop (pos + length new) bs"

text \<open>
  \<^verbatim>\<open>new T(buffer, byteOffset, length)\<close>: a \<^verbatim>\<open>RangeError\<close> unless the offset is a
  multiple of the element size and the window fits the buffer.
\<close>

definition new_TypedArray ::
  "heap \<Rightarrow> PropertyType \<Rightarrow> nat \<Rightarrow> nat \<Rightarrow> nat \<Rightarrow> error + TypedArrayView" where
  "new_TypedArray h c b off len =
     (if off mod BYTES_PER_ELEMENT c \<noteq> 0 then Inl RangeError
      else if length (h ! b) < off + len * BYTES_PER_ELEMENT c then Inl RangeError
      else Inr \<lparr>ta_buffer = b, ta_byteOffset = off, ta_length = len, ta_type = c\<rparr>)"

text \<open>\<^verbatim>\<open>ta[index]\<close>: \<^verbatim>\<open>undefined\<close> unless the index is an integer below the length.\<close>

definition ta_get :: "heap \<Rightarrow> TypedArrayView \<Rightarrow> number \<Rightarrow> element" where
  "ta_get h ta i =
     (case i of
        NaN \<Rightarrow> Undefined
      | Num k \<Rightarrow>
          if k < ta_length ta
          then RawBytesToNumeric (ta_type ta)
                 (load (h ! ta_buffer ta)
                    (ta_byteOffset ta + k * BYTES_PER_ELEMENT (ta_type ta))
                    (BYTES_PER_ELEMENT (ta_type ta)))
          else Undefined)"

definition ta_elements :: "heap \<Rightarrow> TypedArrayView \<Rightarrow> element list" where
  "ta_elements h ta = map (\<lambda>k. ta_get h ta (Num k)) [0..<ta_length ta]"

text \<open>
  \<^verbatim>\<open>ta[index] = v\<close>: the value is converted first (which may throw); an index that
  is no integer below the length stores nothing. The heap is returned in every case:
  an exception leaves it as it is at that moment.
\<close>

definition ta_put :: "heap \<Rightarrow> TypedArrayView \<Rightarrow> number \<Rightarrow> element \<Rightarrow> error option \<times> heap" where
  "ta_put h ta i v =
     (case NumericToRawBytes (ta_type ta) v of
        Inl e \<Rightarrow> (Some e, h)
      | Inr raw \<Rightarrow>
          (case i of
             NaN \<Rightarrow> (None, h)
           | Num k \<Rightarrow>
               if k < ta_length ta
               then (None, h[ta_buffer ta :=
                       store (h ! ta_buffer ta)
                         (ta_byteOffset ta + k * BYTES_PER_ELEMENT (ta_type ta)) raw])
               else (None, h)))"

text \<open>\<^verbatim>\<open>ToIntegerOrInfinity\<close> of an index argument.\<close>

fun ToInteger :: "number \<Rightarrow> nat" where
  "ToInteger (Num k) = k"
| "ToInteger NaN = 0"

text \<open>
  \<^verbatim>\<open>ta.slice(start, end)\<close>: a new typed array of the same type on a buffer of its own,
  holding a copy of the elements from \<open>start\<close> up to \<open>stop\<close>, both clamped to the length.
\<close>

definition ta_slice :: "heap \<Rightarrow> TypedArrayView \<Rightarrow> number \<Rightarrow> number \<Rightarrow> TypedArrayView \<times> heap" where
  "ta_slice h ta start stop =
     (let k = min (ToInteger start) (ta_length ta);
          final = min (ToInteger stop) (ta_length ta);
          n = final - k;
          w = BYTES_PER_ELEMENT (ta_type ta)
      in (\<lparr>ta_buffer = length h, ta_byteOffset = 0, ta_length = n, ta_type = ta_type ta\<rparr>,
          h @ [load (h ! ta_buffer ta) (ta_byteOffset ta + k * w) (n * w)]))"

text \<open>
  What a property of an instance holds: a scalar, a typed array, or a plain array of
  scalars.
\<close>

datatype field_value = Single element | TypedArr TypedArrayView | Array "element list"

text \<open>The element-by-element loop of \<^verbatim>\<open>set\<close>: the first conversion that throws ends it.\<close>

fun set_loop :: "TypedArrayView \<Rightarrow> nat \<Rightarrow> element list \<Rightarrow> heap \<Rightarrow> error option \<times> heap" where
  "set_loop ta k [] h = (None, h)"
| "set_loop ta k (v # vs) h =
     (case ta_put h ta (Num k) v of
        (Some e, h') \<Rightarrow> (Some e, h')
      | (None, h') \<Rightarrow> set_loop ta (Suc k) vs h')"

text \<open>
  \<^verbatim>\<open>ta.set(source, offset)\<close>. Both kinds of source are checked against the length of
  the target before anything is stored. A typed-array source must hold the same kind of
  content (numbers or BigInts); its elements are read before the first store (the
  language copies a source that shares the target's buffer), byte for byte when the
  element types agree and value by value otherwise. A plain array is stored element by
  element.
\<close>

definition ta_set :: "heap \<Rightarrow> TypedArrayView \<Rightarrow> field_value \<Rightarrow> number \<Rightarrow> error option \<times> heap" where
  "ta_set h ta source offset =
     (let targetOffset = ToInteger offset in
      case source of
        Single v \<Rightarrow> (None, h)
      | Array vs \<Rightarrow>
          if ta_length ta < length vs + targetOffset then (Some RangeError, h)
          else set_loop ta targetOffset vs h
      | TypedArr src \<Rightarrow>
          if ta_length ta < ta_length src + targetOffset then (Some RangeError, h)
          else if is_BigInt_type (ta_type ta) \<noteq> is_BigInt_type (ta_type src)
          then (Some TypeError, h)
          else if ta_type src = ta_type ta
          then (None, h[ta_buffer ta :=
                  store (h ! ta_buffer ta)
                    (ta_byteOffset ta + targetOffset * BYTES_PER_ELEMENT (ta_type ta))
                    (load (h ! ta_buffer src) (ta_byteOffset src)
                       (ta_length src * BYTES_PER_ELEMENT (ta_type src)))])
          else set_loop ta targetOffset (ta_elements h src) h)"

section \<open>Views of a structure\<close>

text \<open>
  \<^verbatim>\<open>viewBuffer\<close>: a byte window on the whole \<^verbatim>\<open>ArrayBuffer\<close>, or on the bytes of the
  view passed in.
\<close>

fun viewBuffer :: "heap \<Rightarrow> ArrayBufferLike \<Rightarrow> error + TypedArrayView" where
  "viewBuffer h (ArrayBuffer b) = new_TypedArray h u8 b 0 (length (h ! b))"
| "viewBuffer h (ArrayBufferView b off len) = new_TypedArray h u8 b off len"

text \<open>
  \<^verbatim>\<open>view.byteOffset % template.alignment !== 0\<close>. The remainder by \<open>0\<close> and by
  \<^verbatim>\<open>NaN\<close> is \<^verbatim>\<open>NaN\<close>, which differs from \<open>0\<close>.
\<close>

fun misaligned :: "nat \<Rightarrow> number \<Rightarrow> bool" where
  "misaligned off (Num a) = (a = 0 \<or> off mod a \<noteq> 0)"
| "misaligned off NaN = True"

text \<open>\<^verbatim>\<open>types.add(t)\<close> on a \<^verbatim>\<open>Set\<close>, which keeps the order of first insertion.\<close>

definition Set_add :: "'a \<Rightarrow> 'a list \<Rightarrow> 'a list" where
  "Set_add x xs = (if x \<in> set xs then xs else xs @ [x])"

definition schema_types :: "(string \<times> TemplateMember) list \<Rightarrow> string list" where
  "schema_types s = foldl (\<lambda>types p. Set_add (m_type (snd p)) types) [] s"

text \<open>
  The loop that builds one window per type. The length argument
  \<^verbatim>\<open>view.byteLength / type.BYTES_PER_ELEMENT\<close> may be fractional; the constructor
  truncates it. For a name that is no own key of \<^verbatim>\<open>TypedArray\<close> the \<^verbatim>\<open>new\<close>
  expression has no typed-array constructor to call and the model raises
  \<^verbatim>\<open>TypeError\<close>; a template built by \<open>struct\<close> never gets there, since its alignment
  is then \<open>NaN\<close> and the alignment check throws first.
\<close>

fun views_loop ::
  "heap \<Rightarrow> TypedArrayView \<Rightarrow> string list \<Rightarrow> (string \<times> TypedArrayView) list
     \<Rightarrow> error + (string \<times> TypedArrayView) list" where
  "views_loop h view [] result = Inr result"
| "views_loop h view (n # types) result =
     (case TypedArray n of
        Constructor c \<Rightarrow>
          (case new_TypedArray h c (ta_buffer view) (ta_byteOffset view)
                  (ta_length view div BYTES_PER_ELEMENT c) of
             Inl e \<Rightarrow> Inl e
           | Inr ta \<Rightarrow> views_loop h view types (AList.update n ta result))
      | Inherited \<Rightarrow> Inl TypeError
      | NoProperty \<Rightarrow> Inl TypeError)"

definition createViews ::
  "heap \<Rightarrow> ArrayBufferLike \<Rightarrow> StructTemplate \<Rightarrow> error + (string \<times> TypedArrayView) list" where
  "createViews h buffer template =
     (case viewBuffer h buffer of
        Inl e \<Rightarrow> Inl e
      | Inr view \<Rightarrow>
          if misaligned (ta_byteOffset view) (alignment template) then Inl InvalidAlignment
          else views_loop h view (schema_types (schema template)) [])"

section \<open>Reading and writing a structure\<close>

text \<open>
  An instance: its properties in insertion order, and the template stored under the
  symbol key.
\<close>

record Struct =
  template :: StructTemplate
  props :: "(string \<times> field_value) list"

text \<open>\<^verbatim>\<open>buffer.byteLength < template.size\<close>: false when the size is \<^verbatim>\<open>NaN\<close>.\<close>

fun less_number :: "nat \<Rightarrow> number \<Rightarrow> bool" where
  "less_number n (Num s) = (n < s)"
| "less_number n NaN = False"

text \<open>
  The loop of \<^verbatim>\<open>struct.read\<close> over the schema. A member whose type has no window
  makes the element access throw a \<^verbatim>\<open>TypeError\<close>.
\<close>

fun read_loop ::
  "(string \<times> TypedArrayView) list \<Rightarrow> (string \<times> TemplateMember) list
     \<Rightarrow> (string \<times> field_value) list \<Rightarrow> heap
     \<Rightarrow> error + (string \<times> field_value) list \<times> heap" where
  "read_loop views [] result h = Inr (result, h)"
| "read_loop views ((n, member) # rest) result h =
     (case map_of views (m_type member) of
        None \<Rightarrow> Inl TypeError
      | Some ta \<Rightarrow>
          if m_count member = 1
          then read_loop views rest
                 (AList.update n (Single (ta_get h ta (m_index member))) result) h
          else (case ta_slice h ta (m_index member)
                       (number_plus (m_index member) (Num (m_count member))) of
                  (a, h') \<Rightarrow> read_loop views rest (AList.update n (TypedArr a) result) h'))"

text \<open>
  \<^verbatim>\<open>struct.read\<close>. It allocates the buffers of the slices and changes no existing one;
  the result carries the heap after the allocations.
\<close>

definition struct_read :: "StructTemplate \<Rightarrow> ArrayBufferLike \<Rightarrow> heap \<Rightarrow> error + Struct \<times> heap" where
  "struct_read t buffer h =
     (if less_number (byteLength h buffer) (size_bytes t) then Inl NotEnoughSpace
      else case createViews h buffer t of
             Inl e \<Rightarrow> Inl e
           | Inr views \<Rightarrow>
               (case read_loop views (schema t) [] h of
                  Inl e \<Rightarrow> Inl e
                | Inr (result, h') \<Rightarrow> Inr (\<lparr>template = t, props = result\<rparr>, h')))"

text \<open>\<^verbatim>\<open>isArrayLike\<close>: scalars and \<^verbatim>\<open>undefined\<close> have no numeric \<^verbatim>\<open>length\<close>.\<close>

fun isArrayLike :: "field_value \<Rightarrow> bool" where
  "isArrayLike (Single v) = False"
| "isArrayLike (TypedArr a) = True"
| "isArrayLike (Array vs) = True"

text \<open>\<^verbatim>\<open>struct[name]\<close>: \<^verbatim>\<open>undefined\<close> for a property the instance lacks.\<close>

definition prop_of :: "Struct \<Rightarrow> string \<Rightarrow> field_value" where
  "prop_of s n = (case map_of (props s) n of None \<Rightarrow> Single Undefined | Some v \<Rightarrow> v)"

text \<open>The loop of \<^verbatim>\<open>struct.write\<close> over the schema.\<close>

fun write_loop ::
  "(string \<times> TypedArrayView) list \<Rightarrow> Struct \<Rightarrow> (string \<times> TemplateMember) list \<Rightarrow> heap
     \<Rightarrow> error option \<times> heap" where
  "write_loop views s [] h = (None, h)"
| "write_loop views s ((n, member) # rest) h =
     (case map_of views (m_type member) of
        None \<Rightarrow> (Some TypeError, h)
      | Some ta \<Rightarrow>
          (case (case prop_of s n of
                   Single v \<Rightarrow> ta_put h ta (m_index member) v
                 | source \<Rightarrow> ta_set h ta source (m_index member)) of
             (Some e, h') \<Rightarrow> (Some e, h')
           | (None, h') \<Rightarrow> write_loop views s rest h'))"

text \<open>
  \<^verbatim>\<open>struct.write\<close>: the error thrown, if any, and the heap it leaves.
\<close>

definition struct_write :: "Struct \<Rightarrow> ArrayBufferLike \<Rightarrow> heap \<Rightarrow> error option \<times> heap" where
  "struct_write s buffer h =
     (if less_number (byteLength h buffer) (size_bytes (template s)) then (Some NotEnoughSpace, h)
      else case createViews h buffer (template s) of
             Inl e \<Rightarrow> (Some e, h)
           | Inr views \<Rightarrow> write_loop views s (schema (template s)) h)"

section \<open>Byte ranges of a layout\<close>

text \<open>
  The bytes a compiled member occupies, from \<open>m_start\<close> up to \<open>m_end\<close>, counted from
  the start of the structure.
\<close>

definition m_start :: "TemplateMember \<Rightarrow> nat" where
  "m_start m =
     (case TypedArray (m_type m) of
        Constructor c \<Rightarrow> ToInteger (m_index m) * BYTES_PER_ELEMENT c
      | _ \<Rightarrow> 0)"

definition m_end :: "TemplateMember \<Rightarrow> nat" where
  "m_end m =
     (case TypedArray (m_type m) of
        Constructor c \<Rightarrow> (ToInteger (m_index m) + m_count m) * BYTES_PER_ELEMENT c
      | _ \<Rightarrow> 0)"

text \<open>
  A member is placed in a structure of \<open>sz\<close> bytes and alignment \<open>al\<close>: its type is a
  key of the registry, its index is a number, it ends within the structure, and its
  element size divides the alignment.
\<close>

definition placed :: "nat \<Rightarrow> nat \<Rightarrow> TemplateMember \<Rightarrow> bool" where
  "placed sz al m =
     (case TypedArray (m_type m) of
        Constructor c \<Rightarrow>
          m_index m \<noteq> NaN \<and> m_end m \<le> sz \<and> 0 < al \<and> BYTES_PER_ELEMENT c dvd al
      | _ \<Rightarrow> False)"

text \<open>
  The invariant of the loop of \<open>struct\<close> as long as no \<open>NaN\<close> has appeared: size and
  alignment are numbers, the keys of the schema are distinct, every member is placed,
  and members under different names occupy disjoint byte ranges.
\<close>

definition layout_inv :: "StructTemplate \<Rightarrow> bool" where
  "layout_inv r =
     (case (size_bytes r, alignment r) of
        (Num sz, Num al) \<Rightarrow>
          al \<in> {0, 1, 2, 4, 8} \<and>
          distinct (map fst (schema r)) \<and>
          (\<forall>n m. map_of (schema r) n = Some m \<longrightarrow> placed sz al m) \<and>
          (\<forall>n m n' m'. map_of (schema r) n = Some m \<and> map_of (schema r) n' = Some m' \<and> n \<noteq> n'
             \<longrightarrow> m_end m \<le> m_start m' \<or> m_end m' \<le> m_start m)
      | _ \<Rightarrow> False)"

section \<open>The structure of the test suite\<close>

text \<open>
  \<^verbatim>\<open>struct([prop.i64("big"), prop.u8("smol", 3), prop.f32("float")])\<close> of
  \<^verbatim>\<open>struct.test.ts\<close>, and the template it is compiled to.
\<close>

definition Message :: "Member list" where
  "Message =
     [\<lparr>type = ''i64'', name = ''big'', count = 1\<rparr>,
      \<lparr>type = ''u8'', name = ''smol'', count = 3\<rparr>,
      \<lparr>type = ''f32'', name = ''float'', count = 1\<rparr>]"

definition Message_template :: StructTemplate where
  "Message_template =
     \<lparr>size_bytes = Num 16, alignment = Num 8,
      schema =
        [(''big'', \<lparr>m_type = ''i64'', m_count = 1, m_index = Num 0\<rparr>),
         (''smol'', \<lparr>m_type = ''u8'', m_count = 3, m_index = Num 8\<rparr>),
         (''float'', \<lparr>m_type = ''f32'', m_count = 1, m_index = Num 3\<rparr>)]\<rparr>"

section \<open>Well-formed buffer arguments\<close>

text \<open>
  The \<^verbatim>\<open>ArrayBuffer\<close> a buffer argument lives in and its starting byte offset there
  (\<open>0\<close> for an \<^verbatim>\<open>ArrayBuffer\<close> itself). The language only hands out views that lie
  within an existing buffer (\<open>buffer_ok\<close>).
\<close>

fun buffer_of :: "ArrayBufferLike \<Rightarrow> nat" where
  "buffer_of (ArrayBuffer b) = b"
| "buffer_of (ArrayBufferView b off len) = b"

fun byteOffset :: "ArrayBufferLike \<Rightarrow> nat" where
  "byteOffset (ArrayBuffer b) = 0"
| "byteOffset (ArrayBufferView b off len) = off"

fun buffer_ok :: "heap \<Rightarrow> ArrayBufferLike \<Rightarrow> bool" where
  "buffer_ok h (ArrayBuffer b) = (b < length h)"
| "buffer_ok h (ArrayBufferView b off len) = (b < length h \<and> off + len \<le> length (h ! b))"

text \<open>The window \<open>createViews\<close> builds for the element type \<open>c\<close>.\<close>

definition window :: "heap \<Rightarrow> ArrayBufferLike \<Rightarrow> PropertyType \<Rightarrow> TypedArrayView" where
  "window h buffer c =
     \<lparr>ta_buffer = buffer_of buffer, ta_byteOffset = byteOffset buffer,
      ta_length = byteLength h buffer div BYTES_PER_ELEMENT c, ta_type = c\<rparr>"

section \<open>Well-formed field values\<close>

text \<open>
  A value is representable in an element type when storing it there and reading it
  back yields the value again.
\<close>

definition representable :: "PropertyType \<Rightarrow> element \<Rightarrow> bool" where
  "representable c v =
     (case NumericToRawBytes c v of
        Inl e \<Rightarrow> False
      | Inr raw \<Rightarrow> RawBytesToNumeric c raw = v)"

text \<open>The elements a field value stands for.\<close>

fun elements_of :: "heap \<Rightarrow> field_value \<Rightarrow> element list" where
  "elements_of h (Single x) = [x]"
| "elements_of h (Array xs) = xs"
| "elements_of h (TypedArr a) = ta_elements h a"

text \<open>
  A value fits a field of \<open>n\<close> elements of type \<open>c\<close> that is to be written to buffer
  \<open>b\<close>: a representable scalar for \<open>n = 1\<close>, or a sequence of \<open>n\<close> representable
  elements, which is a plain array or a typed array of the same kind of content on
  another buffer.
\<close>

fun field_ok :: "heap \<Rightarrow> nat \<Rightarrow> PropertyType \<Rightarrow> nat \<Rightarrow> field_value \<Rightarrow> bool" where
  "field_ok h b c n (Single x) = (n = 1 \<and> representable c x)"
| "field_ok h b c n (Array xs) = (length xs = n \<and> (\<forall>x \<in> set xs. representable c x))"
| "field_ok h b c n (TypedArr a) =
     (ta_length a = n \<and> ta_ok h a \<and> ta_buffer a \<noteq> b \<and>
      is_BigInt_type (ta_type a) = is_BigInt_type c \<and>
      (\<forall>x \<in> set (ta_elements h a). representable c x))"

text \<open>Every property of the instance fits the member of the schema it belongs to.\<close>

definition fields_ok :: "heap \<Rightarrow> nat \<Rightarrow> Struct \<Rightarrow> bool" where
  "fields_ok h b s =
     (\<forall>(n, m) \<in> set (schema (template s)).
        case TypedArray (m_type m) of
          Constructor c \<Rightarrow> field_ok h b c (m_count m) (prop_of s n)
        | _ \<Rightarrow> False)"

text \<open>The bytes a field value is stored as, and the elements a run of bytes holds.\<close>

definition raw_bytes :: "PropertyType \<Rightarrow> element \<Rightarrow> byte list" where
  "raw_bytes c v = (case NumericToRawBytes c v of Inl e \<Rightarrow> [] | Inr raw \<Rightarrow> raw)"

fun field_bytes :: "heap \<Rightarrow> PropertyType \<Rightarrow> field_value \<Rightarrow> byte list" where
  "field_bytes h c (Single x) = raw_bytes c x"
| "field_bytes h c (Array xs) = concat (map (raw_bytes c) xs)"
| "field_bytes h c (TypedArr a) =
     (if ta_type a = c
      then load (h ! ta_buffer a) (ta_byteOffset a) (ta_length a * BYTES_PER_ELEMENT c)
      else concat (map (raw_bytes c) (ta_elements h a)))"

definition decode_all :: "PropertyType \<Rightarrow> byte list \<Rightarrow> nat \<Rightarrow> element list" where
  "decode_all c bs n =
     map (\<lambda>k. RawBytesToNumeric c (load bs (k * BYTES_PER_ELEMENT c) (BYTES_PER_ELEMENT c))) [0..<n]"

text \<open>
  The message the tests write: \<^verbatim>\<open>big = 4n\<close>, \<^verbatim>\<open>smol = [0, 2, 8]\<close> and
  \<^verbatim>\<open>float = 4.5\<close>, whose binary64 pattern is \<open>0x4012000000000000\<close>.
\<close>

definition Message_instance :: Struct where
  "Message_instance =
     \<lparr>template = Message_template,
      props =
        [(''big'', Single (BigInt 4)),
         (''smol'', Array [Number (double_of_int 0), Number (double_of_int 2),
                           Number (double_of_int 8)]),
         (''float'', Single (Number 0x4012000000000000))]\<rparr>"

section \<open>Properties of the layout compiler\<close>

lemma width_cases: "BYTES_PER_ELEMENT c \<in> {1, 2, 4, 8}"
  by (cases c) simp_all

lemma width_pos [simp]: "0 < BYTES_PER_ELEMENT c"
  by (cases c) simp_all

lemma width_dvd_max:
  "al \<in> {0, 1, 2, 4, 8} \<Longrightarrow> w \<in> {1, 2, 4, 8::nat} \<Longrightarrow> w dvd max al w \<and> max al w \<in> {0, 1, 2, 4, 8} \<and> 0 < max al w \<and> (\<forall>v \<in> {1, 2, 4, 8::nat}. v dvd al \<and> 0 < al \<longrightarrow> v dvd max al w)"
  by (elim insertE emptyE; simp)

lemma align_up_le: "0 < a \<Longrightarrow> s \<le> ((s + a - 1) div a) * (a::nat)"
proof -
  assume a: "0 < a"
  have "(s + a - 1) mod a < a" using a by simp
  moreover have "(s + a - 1) div a * a + (s + a - 1) mod a = s + a - 1" by simp
  ultimately show ?thesis by linarith
qed

lemma alignTo_Num:
  "0 < a \<Longrightarrow> \<exists>s'. alignTo (Num s) (Num a) = Num s' \<and> s \<le> s' \<and> a dvd s'"
  using align_up_le [of a s] by simp

lemma divide_alignTo:
  "alignTo (Num s) (Num a) = Num s' \<Longrightarrow> number_divide (Num s') (Num a) = Num (s' div a) \<and> (s' div a) * a = s'"
  by (auto split: if_splits)

lemma struct_loop_NaN:
  "struct_loop r ms = Inr r' \<Longrightarrow> alignment r = NaN \<Longrightarrow> alignment r' = NaN"
proof (induction ms arbitrary: r)
  case Nil
  then show ?case by simp
next
  case (Cons f fs)
  from Cons.prems obtain r1 where s: "struct_step r f = Inr r1" and l: "struct_loop r1 fs = Inr r'"
    by (auto split: sum.splits)
  from s Cons.prems(2) have "alignment r1 = NaN"
    by (auto simp: struct_step_def Let_def split: sum.splits)
  with l Cons.IH show ?case by blast
qed

lemma placed_mono:
  assumes "placed sz al m" and "sz \<le> sz'" and "al \<in> {0, 1, 2, 4, 8}" and "w \<in> {1, 2, 4, 8}"
  shows "placed sz' (max al w) m"
proof (cases "TypedArray (m_type m)")
  case (Constructor c)
  with assms(1) have p: "m_index m \<noteq> NaN" "m_end m \<le> sz" "0 < al" "BYTES_PER_ELEMENT c dvd al"
    by (simp_all add: placed_def)
  from width_dvd_max [OF assms(3,4)] width_cases [of c] p(3,4)
  have "BYTES_PER_ELEMENT c dvd max al w" "0 < max al w" by blast+
  with p assms(2) Constructor show ?thesis by (simp add: placed_def)
qed (use assms(1) in \<open>simp_all add: placed_def\<close>)

lemma map_of_update_cases:
  "map_of (AList.update k v al) n = Some m \<Longrightarrow> (n = k \<and> m = v) \<or> (n \<noteq> k \<and> map_of al n = Some m)"
  by (simp add: update_conv' split: if_splits)

lemma placed_size: "placed sz al m \<Longrightarrow> sz \<le> sz' \<Longrightarrow> placed sz' al m"
  by (cases "TypedArray (m_type m)") (simp_all add: placed_def)

lemma placed_end: "placed sz al m \<Longrightarrow> m_end m \<le> sz"
  by (cases "TypedArray (m_type m)") (simp_all add: placed_def)

lemma layout_inv_grow:
  assumes "layout_inv r" and "size_bytes r = Num sz" and "sz \<le> s'"
  shows "layout_inv (r\<lparr>size_bytes := Num s'\<rparr>)"
proof -
  from assms(1,2) obtain al where al: "alignment r = Num al"
    by (cases "alignment r") (simp_all add: layout_inv_def)
  from assms(1,2) al have pl: "\<And>n m. map_of (schema r) n = Some m \<Longrightarrow> placed sz al m"
    by (simp add: layout_inv_def)
  have "\<And>n m. map_of (schema r) n = Some m \<Longrightarrow> placed s' al m"
    using pl placed_size [OF _ assms(3)] by blast
  then show ?thesis using assms(1,2) al by (simp add: layout_inv_def)
qed

lemma struct_step_inv:
  assumes inv: "layout_inv r" and step: "struct_step r f = Inr r1" and al: "alignment r1 \<noteq> NaN"
  shows "layout_inv r1"
proof -
  from inv obtain sz al0 where r: "size_bytes r = Num sz" "alignment r = Num al0"
    and al0: "al0 \<in> {0, 1, 2, 4, 8}"
    and dist: "distinct (map fst (schema r))"
    and pl: "\<And>n m. map_of (schema r) n = Some m \<Longrightarrow> placed sz al0 m"
    and ap: "\<And>n m n' m'. map_of (schema r) n = Some m \<Longrightarrow> map_of (schema r) n' = Some m' \<Longrightarrow> n \<noteq> n'
             \<Longrightarrow> m_end m \<le> m_start m' \<or> m_end m' \<le> m_start m"
    by (auto simp: layout_inv_def split: number.splits)
  from step al r obtain c where c: "TypedArray (type f) = Constructor c"
    by (cases "TypedArray (type f)") (auto simp: struct_step_def Let_def split: sum.splits)
  define w where "w = BYTES_PER_ELEMENT c"
  have w: "w \<in> {1, 2, 4, 8}" "0 < w" using width_cases [of c] by (auto simp: w_def)
  from alignTo_Num [OF w(2), of sz] obtain s1 where s1: "alignTo (Num sz) (Num w) = Num s1" "sz \<le> s1" "w dvd s1"
    by blast
  from divide_alignTo [OF s1(1)] have d: "number_divide (Num s1) (Num w) = Num (s1 div w)" "(s1 div w) * w = s1"
    by auto
  define m1 where "m1 = \<lparr>m_type = type f, m_count = count f, m_index = Num (s1 div w)\<rparr>"
  have r1: "r1 = \<lparr>size_bytes = Num (s1 + w * count f), alignment = Num (max al0 w),
                  schema = AList.update (name f) m1 (schema r)\<rparr>"
    using step c r s1(1) d(1) by (simp add: struct_step_def Let_def w_def m1_def)
  have st: "m_start m1 = s1" and en: "m_end m1 = s1 + w * count f"
    using c d(2) by (simp_all add: m_start_def m_end_def m1_def w_def algebra_simps)
  have pl1: "placed (s1 + w * count f) (max al0 w) m1"
    using c en width_dvd_max [OF al0 w(1)] by (simp add: placed_def m1_def w_def)
  have old: "placed (s1 + w * count f) (max al0 w) m \<and> m_end m \<le> s1" if "map_of (schema r) n = Some m" for n m
  proof -
    from pl that have p: "placed sz al0 m" by auto
    then have "m_end m \<le> sz" by (rule placed_end)
    moreover have "sz \<le> s1 + w * count f" using s1(2) by simp
    ultimately show ?thesis using s1(2) placed_mono [OF p _ al0 w(1)] by simp
  qed
  have A: "max al0 w \<in> {0, 1, 2, 4, 8}" using width_dvd_max [OF al0 w(1)] by blast
  have B: "distinct (map fst (AList.update (name f) m1 (schema r)))"
    using dist by (rule distinct_update)
  have C: "placed (s1 + w * count f) (max al0 w) m"
    if "map_of (AList.update (name f) m1 (schema r)) n = Some m" for n m
    using map_of_update_cases [OF that] pl1 old by blast
  have D: "m_end m \<le> m_start m' \<or> m_end m' \<le> m_start m"
    if "map_of (AList.update (name f) m1 (schema r)) n = Some m"
       "map_of (AList.update (name f) m1 (schema r)) n' = Some m'" "n \<noteq> n'" for n m n' m'
  proof -
    from map_of_update_cases [OF that(1)] map_of_update_cases [OF that(2)] that(3)
    consider "n = name f" "m = m1" "map_of (schema r) n' = Some m'"
      | "n' = name f" "m' = m1" "map_of (schema r) n = Some m"
      | "map_of (schema r) n = Some m" "map_of (schema r) n' = Some m'"
      by blast
    then show ?thesis
    proof cases
      case 1 then show ?thesis using old [of n' m'] st by simp
    next
      case 2 then show ?thesis using old [of n m] st by simp
    next
      case 3 then show ?thesis using ap that(3) by blast
    qed
  qed
  show ?thesis
    unfolding layout_inv_def r1 using A B C D by simp blast
qed

lemma struct_loop_inv:
  "layout_inv r \<Longrightarrow> struct_loop r ms = Inr r' \<Longrightarrow> alignment r' \<noteq> NaN \<Longrightarrow> layout_inv r'"
proof (induction ms arbitrary: r)
  case Nil
  then show ?case by simp
next
  case (Cons f fs)
  from Cons.prems obtain r1 where s: "struct_step r f = Inr r1" and l: "struct_loop r1 fs = Inr r'"
    by (auto split: sum.splits)
  have "alignment r1 \<noteq> NaN" using struct_loop_NaN [OF l] Cons.prems(3) by blast
  with struct_step_inv [OF Cons.prems(1) s] have "layout_inv r1" .
  with l Cons.prems(3) Cons.IH show ?case by blast
qed

lemma layout_inv_init: "layout_inv \<lparr>size_bytes = Num 0, alignment = Num 0, schema = []\<rparr>"
  by (simp add: layout_inv_def)

lemma struct_loop_nonempty:
  "struct_loop r ms = Inr r' \<Longrightarrow> schema r \<noteq> [] \<or> ms \<noteq> [] \<Longrightarrow> schema r' \<noteq> []"
proof (induction ms arbitrary: r)
  case Nil
  then show ?case by simp
next
  case (Cons f fs)
  from Cons.prems obtain r1 where s: "struct_step r f = Inr r1" and l: "struct_loop r1 fs = Inr r'"
    by (auto split: sum.splits)
  from s have "schema r1 \<noteq> []" by (auto simp: struct_step_def Let_def split: sum.splits)
  with l Cons.IH show ?case by blast
qed

text \<open>What every layout with a numeric alignment satisfies, the last step included.\<close>

lemma struct_layout:
  assumes "struct ms = Inr t" and "alignment t = Num al" and "0 < al"
  shows "\<exists>sz. size_bytes t = Num sz \<and> al dvd sz \<and> al \<in> {1, 2, 4, 8} \<and> layout_inv t"
proof -
  from assms(1) obtain r where l: "struct_loop \<lparr>size_bytes = Num 0, alignment = Num 0, schema = []\<rparr> ms = Inr r"
    and t: "t = r\<lparr>size_bytes := alignTo (size_bytes r) (alignment r)\<rparr>"
    by (auto simp: struct_def split: sum.splits)
  from t assms(2) have a: "alignment r = Num al" by simp
  with struct_loop_inv [OF layout_inv_init l] have inv: "layout_inv r" by simp
  then obtain sz where sz: "size_bytes r = Num sz" using a
    by (auto simp: layout_inv_def split: number.splits)
  from alignTo_Num [OF assms(3), of sz] obtain s' where s': "alignTo (Num sz) (Num al) = Num s'" "sz \<le> s'" "al dvd s'"
    by blast
  have ts: "size_bytes t = Num s'" using t sz a s'(1) by simp
  have al: "al \<in> {1, 2, 4, 8}" using inv sz a assms(3) by (auto simp: layout_inv_def)
  have "layout_inv t"
    using layout_inv_grow [OF inv sz s'(2)] t sz a s'(1) by simp
  with ts s'(3) al show ?thesis by blast
qed

text \<open>
  Claim C10: the layout of the empty field list has total size 0. The code returns
  \<open>NaN\<close> instead: with no field the alignment is still \<open>0\<close>, and the final
  \<^verbatim>\<open>alignTo(0, 0)\<close> computes \<^verbatim>\<open>Math.ceil(0 / 0) * 0\<close>.
\<close>

theorem struct_empty:
  "struct [] = Inr \<lparr>size_bytes = NaN, alignment = Num 0, schema = []\<rparr>"
  by (simp add: struct_def)

text \<open>
  Claim C3: for every field list the total size is a non-negative multiple of the
  alignment, the alignment is the largest element width, and the fields occupy
  disjoint, increasing, self-aligned byte ranges. For the empty field list the total
  size is no number at all, hence no multiple of the alignment; for every layout whose
  alignment is a positive number the invariants hold (\<open>struct_layout\<close> above).
\<close>

theorem struct_empty_size_no_multiple:
  "\<exists>t. struct [] = Inr t \<and> alignment t = Num 0 \<and> (\<forall>k. size_bytes t \<noteq> Num (k * 0))"
  by (simp add: struct_def)

lemma struct_step_fails:
  "TypedArray (type f) = NoProperty \<Longrightarrow> struct_step r f = Inl TypeError"
  by (simp add: struct_step_def)

lemma struct_step_succeeds:
  "TypedArray (type f) \<noteq> NoProperty \<Longrightarrow> \<exists>r1. struct_step r f = Inr r1"
  by (cases "TypedArray (type f)") (simp_all add: struct_step_def Let_def)

lemma struct_loop_fails:
  "\<exists>f \<in> set ms. TypedArray (type f) = NoProperty \<Longrightarrow> struct_loop r ms = Inl TypeError"
proof (induction ms arbitrary: r)
  case Nil
  then show ?case by simp
next
  case (Cons f fs)
  show ?case
  proof (cases "TypedArray (type f) = NoProperty")
    case True
    then show ?thesis by (simp add: struct_step_fails)
  next
    case False
    then obtain r1 where s: "struct_step r f = Inr r1"
      using struct_step_succeeds by blast
    from False Cons.prems have "\<exists>f \<in> set fs. TypedArray (type f) = NoProperty" by auto
    then have "struct_loop r1 fs = Inl TypeError" by (rule Cons.IH)
    with s show ?thesis by simp
  qed
qed

lemma struct_loop_succeeds:
  "\<forall>f \<in> set ms. TypedArray (type f) \<noteq> NoProperty \<Longrightarrow> \<exists>r'. struct_loop r ms = Inr r'"
proof (induction ms arbitrary: r)
  case Nil
  then show ?case by simp
next
  case (Cons f fs)
  then obtain r1 where s: "struct_step r f = Inr r1"
    using struct_step_succeeds [of f r] by auto
  from Cons.prems have "\<forall>f \<in> set fs. TypedArray (type f) \<noteq> NoProperty" by simp
  then obtain r' where "struct_loop r1 fs = Inr r'" using Cons.IH by blast
  with s show ?case by simp
qed

text \<open>
  Claim C8, as amended: \<open>struct\<close> has no check of the field types and no error of its
  own for an unknown one. It fails exactly when some field names a type that is
  neither a key of the registry nor a property inherited from \<^verbatim>\<open>Object.prototype\<close>,
  and then with the \<^verbatim>\<open>TypeError\<close> of reading \<^verbatim>\<open>BYTES_PER_ELEMENT\<close> of
  \<^verbatim>\<open>undefined\<close>; it takes no buffer, so none is touched.
\<close>

theorem struct_fails_iff:
  "(if \<exists>f \<in> set ms. TypedArray (type f) = NoProperty
    then struct ms = Inl TypeError
    else \<exists>t. struct ms = Inr t)"
proof -
  let ?r0 = "\<lparr>size_bytes = Num 0, alignment = Num 0, schema = []\<rparr>"
  show ?thesis
  proof (cases "\<exists>f \<in> set ms. TypedArray (type f) = NoProperty")
    case True
    then have "struct_loop ?r0 ms = Inl TypeError"
      by (rule struct_loop_fails)
    with True show ?thesis by (simp add: struct_def)
  next
    case False
    then obtain r where "struct_loop ?r0 ms = Inr r"
      using struct_loop_succeeds [of ms ?r0] by blast
    with False show ?thesis by (simp add: struct_def)
  qed
qed

theorem struct_fails_iff_witness:
  "struct [\<lparr>type = ''i32'', name = ''id'', count = 1\<rparr>,
           \<lparr>type = ''float'', name = ''v'', count = 1\<rparr>] = Inl TypeError"
  using struct_fails_iff
    [of "[\<lparr>type = ''i32'', name = ''id'', count = 1\<rparr>,
          \<lparr>type = ''float'', name = ''v'', count = 1\<rparr>]"]
  by (simp add: TypedArray_def TypedArray_keys_def Object_prototype_keys_def)

text \<open>
  The claim as stated fails: \<^verbatim>\<open>constructor\<close> is no key of the registry, yet a field of
  that type makes \<open>struct\<close> return a layout (of size and alignment \<open>NaN\<close>).
\<close>

theorem struct_unknown_type_accepted:
  "map_of TypedArray_keys ''constructor'' = None \<and>
   struct [\<lparr>type = ''constructor'', name = ''x'', count = 1\<rparr>]
     = Inr \<lparr>size_bytes = NaN, alignment = NaN,
            schema = [(''x'', \<lparr>m_type = ''constructor'', m_count = 1, m_index = NaN\<rparr>)]\<rparr>"
  by (simp add: struct_def struct_step_def TypedArray_def TypedArray_keys_def
      Object_prototype_keys_def)

text \<open>
  Claim C4: for a layout of positive total size, \<open>struct_read\<close> and \<open>struct_write\<close> on
  a buffer whose byte length is smaller fail with the not-enough-space error
  (\<open>InsufficientSpace\<close> in the specification); the size is checked first.
\<close>

theorem short_buffer_rejected:
  assumes "size_bytes t = Num sz" and "0 < sz" and "byteLength h buffer < sz"
    and "template s = t"
  shows "struct_read t buffer h = Inl NotEnoughSpace \<and>
         struct_write s buffer h = (Some NotEnoughSpace, h)"
  using assms by (simp add: struct_read_def struct_write_def)

lemma struct_Message: "struct Message = Inr Message_template"
  by (simp add: struct_def struct_step_def Message_def Message_template_def TypedArray_def
      TypedArray_keys_def Let_def)

theorem short_buffer_rejected_witness:
  "struct_read Message_template (ArrayBuffer 0) [replicate 15 0] = Inl NotEnoughSpace \<and>
   struct_write \<lparr>template = Message_template, props = []\<rparr> (ArrayBuffer 0) [replicate 15 0]
     = (Some NotEnoughSpace, [replicate 15 0])"
  using short_buffer_rejected
    [of Message_template 16 "[replicate 15 0]" "ArrayBuffer 0"
        "\<lparr>template = Message_template, props = []\<rparr>"]
  by (simp add: Message_template_def)


section \<open>Properties of the views\<close>

lemma viewBuffer_ok:
  "buffer_ok h buffer \<Longrightarrow>
   viewBuffer h buffer = Inr \<lparr>ta_buffer = buffer_of buffer, ta_byteOffset = byteOffset buffer,
                               ta_length = byteLength h buffer, ta_type = u8\<rparr>"
  by (cases buffer) (simp_all add: new_TypedArray_def)

lemma byteLength_fits:
  "buffer_ok h buffer \<Longrightarrow> byteOffset buffer + byteLength h buffer \<le> length (h ! buffer_of buffer)"
  by (cases buffer) simp_all

lemma set_Set_add: "set (Set_add x xs) = insert x (set xs)"
  by (auto simp: Set_add_def)

lemma set_foldl_Set_add:
  "set (foldl (\<lambda>types p. Set_add (m_type (snd p)) types) acc s) = set acc \<union> (m_type \<circ> snd) ` set s"
  by (induction s arbitrary: acc) (auto simp: set_Set_add)

lemma set_schema_types: "set (schema_types s) = (m_type \<circ> snd) ` set s"
  by (simp add: schema_types_def set_foldl_Set_add)

lemma div_mult_le_nat: "(n div w) * w \<le> (n::nat)"
  by (metis div_mult_mod_eq le_add1)

lemma new_window:
  assumes "buffer_ok h buffer" and "BYTES_PER_ELEMENT c dvd byteOffset buffer"
  shows "new_TypedArray h c (buffer_of buffer) (byteOffset buffer)
           (byteLength h buffer div BYTES_PER_ELEMENT c) = Inr (window h buffer c)"
proof -
  have "byteLength h buffer div BYTES_PER_ELEMENT c * BYTES_PER_ELEMENT c \<le> byteLength h buffer"
    by (rule div_mult_le_nat)
  with byteLength_fits [OF assms(1)]
  have "byteOffset buffer + byteLength h buffer div BYTES_PER_ELEMENT c * BYTES_PER_ELEMENT c
          \<le> length (h ! buffer_of buffer)" by linarith
  with assms(2) show ?thesis by (simp add: new_TypedArray_def window_def mod_eq_0_iff_dvd)
qed

lemma views_loop_ok:
  assumes ok: "buffer_ok h buffer"
    and view: "view = \<lparr>ta_buffer = buffer_of buffer, ta_byteOffset = byteOffset buffer,
                        ta_length = byteLength h buffer, ta_type = u8\<rparr>"
    and types: "\<forall>n \<in> set types. \<exists>c. TypedArray n = Constructor c \<and> BYTES_PER_ELEMENT c dvd byteOffset buffer"
  shows "\<exists>views. views_loop h view types acc = Inr views \<and>
           (\<forall>k. map_of views k =
                  (if k \<in> set types
                   then (case TypedArray k of Constructor c \<Rightarrow> Some (window h buffer c) | _ \<Rightarrow> None)
                   else map_of acc k))"
  using types
proof (induction types arbitrary: acc)
  case Nil
  then show ?case by simp
next
  case (Cons n types)
  from Cons.prems obtain c where c: "TypedArray n = Constructor c"
    and d: "BYTES_PER_ELEMENT c dvd byteOffset buffer" by auto
  from Cons.prems have rest: "\<forall>n \<in> set types. \<exists>c. TypedArray n = Constructor c \<and> BYTES_PER_ELEMENT c dvd byteOffset buffer"
    by simp
  from Cons.IH [OF rest, of "AList.update n (window h buffer c) acc"]
  obtain views where v: "views_loop h view types (AList.update n (window h buffer c) acc) = Inr views"
    and vs: "\<And>k. map_of views k =
                  (if k \<in> set types
                   then (case TypedArray k of Constructor c \<Rightarrow> Some (window h buffer c) | _ \<Rightarrow> None)
                   else map_of (AList.update n (window h buffer c) acc) k)"
    by blast
  have step: "views_loop h view (n # types) acc = Inr views"
    using c v new_window [OF ok d] by (simp add: view)
  have "map_of views k =
          (if k \<in> set (n # types)
           then (case TypedArray k of Constructor c \<Rightarrow> Some (window h buffer c) | _ \<Rightarrow> None)
           else map_of acc k)" for k
    using vs [of k] c by (simp add: update_conv')
  with step show ?case by blast
qed

lemma dvd_alignment:
  assumes "layout_inv t" and "alignment t = Num al" and "map_of (schema t) n = Some m"
    and "TypedArray (m_type m) = Constructor c"
  shows "BYTES_PER_ELEMENT c dvd al \<and> 0 < al"
proof -
  from assms(1,2) obtain sz where "size_bytes t = Num sz"
    by (cases "size_bytes t") (simp_all add: layout_inv_def)
  with assms(1,2,3) have "placed sz al m" by (simp add: layout_inv_def)
  with assms(4) show ?thesis by (simp add: placed_def)
qed

lemma placed_Constructor: "placed sz al m \<Longrightarrow> \<exists>c. TypedArray (m_type m) = Constructor c"
  by (cases "TypedArray (m_type m)") (simp_all add: placed_def)

lemma layout_inv_placed:
  assumes "layout_inv t" and "(n, m) \<in> set (schema t)"
  shows "\<exists>sz al. size_bytes t = Num sz \<and> alignment t = Num al \<and> placed sz al m \<and> map_of (schema t) n = Some m"
proof -
  from assms(1) obtain sz al where sa: "size_bytes t = Num sz" "alignment t = Num al"
    by (cases "size_bytes t"; cases "alignment t") (simp_all add: layout_inv_def)
  with assms(1) have d: "distinct (map fst (schema t))" by (simp add: layout_inv_def)
  with assms(2) have "map_of (schema t) n = Some m" by simp
  with assms(1) sa show ?thesis by (simp add: layout_inv_def)
qed

lemma createViews_ok:
  assumes inv: "layout_inv t" and ok: "buffer_ok h buffer"
    and al: "\<not> misaligned (byteOffset buffer) (alignment t)"
  shows "\<exists>views. createViews h buffer t = Inr views \<and>
           (\<forall>(n, m) \<in> set (schema t). \<exists>c. TypedArray (m_type m) = Constructor c \<and>
               map_of views (m_type m) = Some (window h buffer c))"
proof -
  from inv obtain a where a: "alignment t = Num a"
    by (cases "alignment t") (auto simp: layout_inv_def split: number.splits)
  with al have a0: "0 < a" "a dvd byteOffset buffer" by (auto simp: mod_eq_0_iff_dvd)
  have types: "\<forall>k \<in> set (schema_types (schema t)).
                 \<exists>c. TypedArray k = Constructor c \<and> BYTES_PER_ELEMENT c dvd byteOffset buffer"
  proof
    fix k assume "k \<in> set (schema_types (schema t))"
    then obtain n m where nm: "(n, m) \<in> set (schema t)" "k = m_type m"
      by (auto simp: set_schema_types)
    from layout_inv_placed [OF inv nm(1)] obtain sz al' where p: "placed sz al' m" "map_of (schema t) n = Some m"
      by blast
    from placed_Constructor [OF p(1)] obtain c where c: "TypedArray (m_type m) = Constructor c" by blast
    from dvd_alignment [OF inv a p(2) c] a0(2) have "BYTES_PER_ELEMENT c dvd byteOffset buffer"
      using dvd_trans by blast
    with c nm(2) show "\<exists>c. TypedArray k = Constructor c \<and> BYTES_PER_ELEMENT c dvd byteOffset buffer"
      by blast
  qed
  from views_loop_ok [OF ok refl types, of "[]"]
  obtain views where v: "views_loop h \<lparr>ta_buffer = buffer_of buffer, ta_byteOffset = byteOffset buffer,
                        ta_length = byteLength h buffer, ta_type = u8\<rparr> (schema_types (schema t)) [] = Inr views"
    and vs: "\<And>k. map_of views k =
                  (if k \<in> set (schema_types (schema t))
                   then (case TypedArray k of Constructor c \<Rightarrow> Some (window h buffer c) | _ \<Rightarrow> None)
                   else map_of [] k)"
    by blast
  have cv: "createViews h buffer t = Inr views"
    using v al by (simp add: createViews_def viewBuffer_ok [OF ok])
  have "\<exists>c. TypedArray (m_type m) = Constructor c \<and> map_of views (m_type m) = Some (window h buffer c)"
    if "(n, m) \<in> set (schema t)" for n m
  proof -
    from layout_inv_placed [OF inv that] obtain sz al' where p: "placed sz al' m" by blast
    from placed_Constructor [OF p] obtain c where c: "TypedArray (m_type m) = Constructor c" by blast
    from that have "m_type m \<in> set (schema_types (schema t))"
      by (force simp: set_schema_types)
    with vs [of "m_type m"] c show ?thesis by simp
  qed
  with cv show ?thesis by blast
qed

lemma struct_layout_inv:
  assumes "struct ms = Inr t" and "\<not> misaligned off (alignment t)"
  shows "layout_inv t"
proof -
  from assms(2) obtain al where "alignment t = Num al" "0 < al"
    by (cases "alignment t") auto
  with struct_layout [OF assms(1)] show ?thesis by blast
qed

text \<open>
  Claim C9: for every buffer that passes the alignment check (in particular every buffer
  \<open>struct_read\<close> and \<open>struct_write\<close> accept), \<open>createViews\<close> succeeds and yields, for
  the type of every member, a window that starts where the buffer starts and spans its
  whole byte length at that element width, rounded down when the length is no multiple
  of the width.
\<close>

theorem views_span_buffer:
  assumes "struct ms = Inr t" and "buffer_ok h buffer"
    and "\<not> misaligned (byteOffset buffer) (alignment t)"
  shows "\<exists>views. createViews h buffer t = Inr views \<and>
           (\<forall>(n, m) \<in> set (schema t). \<exists>c. TypedArray (m_type m) = Constructor c \<and>
               map_of views (m_type m) =
                 Some \<lparr>ta_buffer = buffer_of buffer, ta_byteOffset = byteOffset buffer,
                       ta_length = byteLength h buffer div BYTES_PER_ELEMENT c, ta_type = c\<rparr>)"
  using createViews_ok [OF struct_layout_inv [OF assms(1,3)] assms(2,3)]
  by (simp add: window_def)

theorem views_span_buffer_witness:
  "\<exists>views. createViews [replicate 43 0] (ArrayBufferView 0 24 19) Message_template = Inr views \<and>
     map_of views ''i64'' = Some \<lparr>ta_buffer = 0, ta_byteOffset = 24, ta_length = 2, ta_type = i64\<rparr> \<and>
     map_of views ''u8'' = Some \<lparr>ta_buffer = 0, ta_byteOffset = 24, ta_length = 19, ta_type = u8\<rparr> \<and>
     map_of views ''f32'' = Some \<lparr>ta_buffer = 0, ta_byteOffset = 24, ta_length = 4, ta_type = f32\<rparr>"
proof -
  have ok: "buffer_ok [replicate 43 0] (ArrayBufferView 0 24 19)" by simp
  have al: "\<not> misaligned (byteOffset (ArrayBufferView 0 24 19)) (alignment Message_template)"
    by (simp add: Message_template_def)
  from views_span_buffer [OF struct_Message ok al] show ?thesis
    by (simp add: Message_template_def TypedArray_def TypedArray_keys_def)
qed

section \<open>Bytes, loads and stores\<close>

lemma length_le_bytes [simp]: "length (le_bytes n v) = n"
  by (induction n arbitrary: v) simp_all

lemma length_NumberToRawBytes [simp]: "length (NumberToRawBytes c w) = BYTES_PER_ELEMENT c"
  by (cases c) simp_all

lemma length_NumericToRawBytes:
  "NumericToRawBytes c v = Inr raw \<Longrightarrow> length raw = BYTES_PER_ELEMENT c"
  by (cases c) (auto simp: NumericToRawBytes_def is_BigInt_type_def split: sum.splits)

lemma representable_raw:
  "representable c v \<Longrightarrow>
   NumericToRawBytes c v = Inr (raw_bytes c v) \<and> RawBytesToNumeric c (raw_bytes c v) = v \<and>
   length (raw_bytes c v) = BYTES_PER_ELEMENT c"
  by (auto simp: representable_def raw_bytes_def length_NumericToRawBytes split: sum.splits)

lemma length_store [simp]:
  "pos + length new \<le> length bs \<Longrightarrow> length (store bs pos new) = length bs"
  by (simp add: store_def)

lemma length_load [simp]:
  "pos + n \<le> length bs \<Longrightarrow> length (load bs pos n) = n"
  by (simp add: load_def)

lemma nth_load:
  "i < n \<Longrightarrow> pos + n \<le> length bs \<Longrightarrow> load bs pos n ! i = bs ! (pos + i)"
  by (simp add: load_def)

lemma load_all: "length bs = n \<Longrightarrow> load bs 0 n = bs"
  by (simp add: load_def)

lemma load_load:
  "q + k \<le> n \<Longrightarrow> load (load bs p n) q k = load bs (p + q) k"
  by (simp add: load_def drop_take min_def add.commute)

lemma nth_store:
  assumes "pos + length new \<le> length bs" and "i < length bs"
  shows "store bs pos new ! i = (if pos \<le> i \<and> i < pos + length new then new ! (i - pos) else bs ! i)"
  using assms by (auto simp: store_def nth_append)

lemma load_store_same:
  "pos + length new \<le> length bs \<Longrightarrow> load (store bs pos new) pos (length new) = new"
  by (simp add: store_def load_def)

lemma store_append:
  "pos + length r1 + length r2 \<le> length bs \<Longrightarrow>
   store (store bs pos r1) (pos + length r1) r2 = store bs pos (r1 @ r2)"
  by (simp add: store_def ac_simps)

lemma load_cong:
  assumes "pos + n \<le> length bs" and "length bs' = length bs"
    and "\<And>i. pos \<le> i \<Longrightarrow> i < pos + n \<Longrightarrow> bs' ! i = bs ! i"
  shows "load bs' pos n = load bs pos n"
proof (rule nth_equalityI)
  show "length (load bs' pos n) = length (load bs pos n)" using assms(1,2) by simp
next
  fix i assume "i < length (load bs' pos n)"
  then have i: "i < n" using assms(1,2) by simp
  then show "load bs' pos n ! i = load bs pos n ! i"
    using assms by (simp add: nth_load)
qed


lemma load_concat:
  assumes "\<forall>x \<in> set xs. length (f x) = w" and "k < length xs"
  shows "load (concat (map f xs)) (k * w) w = f (xs ! k)"
  using assms
proof (induction xs arbitrary: k)
  case Nil
  then show ?case by simp
next
  case (Cons x xs)
  show ?case
  proof (cases k)
    case 0
    then show ?thesis using Cons.prems by (simp add: load_def)
  next
    case (Suc j)
    with Cons.prems have "load (concat (map f xs)) (j * w) w = f (xs ! j)"
      by (intro Cons.IH) auto
    then show ?thesis using Cons.prems Suc by (simp add: load_def)
  qed
qed

lemma decode_all_concat:
  assumes "\<forall>x \<in> set xs. representable c x"
  shows "decode_all c (concat (map (raw_bytes c) xs)) (length xs) = xs"
proof (rule nth_equalityI)
  show "length (decode_all c (concat (map (raw_bytes c) xs)) (length xs)) = length xs"
    by (simp add: decode_all_def)
next
  fix k assume "k < length (decode_all c (concat (map (raw_bytes c) xs)) (length xs))"
  then have k: "k < length xs" by (simp add: decode_all_def)
  have len: "\<forall>x \<in> set xs. length (raw_bytes c x) = BYTES_PER_ELEMENT c"
    using assms representable_raw by blast
  have "RawBytesToNumeric c (raw_bytes c (xs ! k)) = xs ! k"
    using assms k representable_raw by simp
  then show "decode_all c (concat (map (raw_bytes c) xs)) (length xs) ! k = xs ! k"
    using k load_concat [OF len k] by (simp add: decode_all_def)
qed

lemma length_concat_raw:
  "\<forall>x \<in> set xs. representable c x \<Longrightarrow>
   length (concat (map (raw_bytes c) xs)) = length xs * BYTES_PER_ELEMENT c"
  by (induction xs) (simp_all add: representable_raw)

lemma length_ta_elements [simp]: "length (ta_elements h a) = ta_length a"
  by (simp add: ta_elements_def)

lemma decode_all_window:
  assumes "ta_ok h a"
  shows "decode_all (ta_type a) (load (h ! ta_buffer a) (ta_byteOffset a)
           (ta_length a * BYTES_PER_ELEMENT (ta_type a))) (ta_length a) = ta_elements h a"
proof -
  have "load (load (h ! ta_buffer a) (ta_byteOffset a)
           (ta_length a * BYTES_PER_ELEMENT (ta_type a))) (k * BYTES_PER_ELEMENT (ta_type a))
           (BYTES_PER_ELEMENT (ta_type a))
        = load (h ! ta_buffer a) (ta_byteOffset a + k * BYTES_PER_ELEMENT (ta_type a))
           (BYTES_PER_ELEMENT (ta_type a))" if "k < ta_length a" for k
  proof -
    from that have "Suc k * BYTES_PER_ELEMENT (ta_type a) \<le> ta_length a * BYTES_PER_ELEMENT (ta_type a)"
      by (intro mult_le_mono1) simp
    then show ?thesis by (intro load_load) simp
  qed
  then show ?thesis
    by (simp add: decode_all_def ta_elements_def ta_get_def)
qed

text \<open>The bytes of a well-formed field value hold its elements.\<close>

lemma decode_field_bytes:
  assumes "field_ok h b c n v"
  shows "decode_all c (field_bytes h c v) n = elements_of h v \<and>
         length (field_bytes h c v) = n * BYTES_PER_ELEMENT c"
proof (cases v)
  case (Single x)
  with assms have r: "representable c x" and n: "n = 1" by simp_all
  from representable_raw [OF r] show ?thesis
    using Single n by (simp add: decode_all_def load_all)
next
  case (Array xs)
  with assms have "\<forall>x \<in> set xs. representable c x" "length xs = n" by simp_all
  with decode_all_concat [of xs c] length_concat_raw [of xs c] show ?thesis
    using Array by simp
next
  case (TypedArr a)
  with assms have a: "ta_length a = n" "ta_ok h a" "\<forall>x \<in> set (ta_elements h a). representable c x"
    by simp_all
  show ?thesis
  proof (cases "ta_type a = c")
    case True
    with decode_all_window [OF a(2)] a(1,2) show ?thesis
      using TypedArr by (auto simp: ta_ok_def)
  next
    case False
    with decode_all_concat [OF a(3)] length_concat_raw [OF a(3)] a(1) show ?thesis
      using TypedArr by simp
  qed
qed

section \<open>The effect of writing\<close>

lemma ta_put_store:
  assumes "NumericToRawBytes (ta_type ta) v = Inr raw" and "k < ta_length ta"
  shows "ta_put h ta (Num k) v =
           (None, h[ta_buffer ta := store (h ! ta_buffer ta)
                      (ta_byteOffset ta + k * BYTES_PER_ELEMENT (ta_type ta)) raw])"
  using assms by (simp add: ta_put_def)

lemma set_loop_store:
  assumes "\<forall>v \<in> set vs. representable (ta_type ta) v"
    and "k + length vs \<le> ta_length ta"
    and "ta_ok h ta"
  shows "set_loop ta k vs h =
           (None, h[ta_buffer ta := store (h ! ta_buffer ta)
                      (ta_byteOffset ta + k * BYTES_PER_ELEMENT (ta_type ta))
                      (concat (map (raw_bytes (ta_type ta)) vs))])"
  using assms
proof (induction vs arbitrary: k h)
  case Nil
  then show ?case by (simp add: store_def ta_ok_def)
next
  case (Cons v vs)
  let ?c = "ta_type ta" and ?b = "ta_buffer ta"
  let ?w = "BYTES_PER_ELEMENT ?c"
  let ?pos = "ta_byteOffset ta + k * ?w"
  from Cons.prems(1) have rv: "representable ?c v" and rvs: "\<forall>v \<in> set vs. representable ?c v"
    by simp_all
  from representable_raw [OF rv]
  have raw: "NumericToRawBytes ?c v = Inr (raw_bytes ?c v)" "length (raw_bytes ?c v) = ?w" by simp_all
  from Cons.prems(2) have k: "k < ta_length ta" "Suc k + length vs \<le> ta_length ta" by simp_all
  from Cons.prems(3) have b: "?b < length h" and fit: "ta_byteOffset ta + ta_length ta * ?w \<le> length (h ! ?b)"
    by (simp_all add: ta_ok_def)
  have "(k + Suc (length vs)) * ?w \<le> ta_length ta * ?w"
    using Cons.prems(2) by (intro mult_le_mono1) simp
  then have in_range: "?pos + ?w + length vs * ?w \<le> length (h ! ?b)"
    using fit by (simp add: algebra_simps)
  define h' where "h' = h[?b := store (h ! ?b) ?pos (raw_bytes ?c v)]"
  have put: "ta_put h ta (Num k) v = (None, h')"
    using ta_put_store [OF raw(1) k(1)] by (simp add: h'_def)
  have h'b: "h' ! ?b = store (h ! ?b) ?pos (raw_bytes ?c v)" using b by (simp add: h'_def)
  have len: "length (h' ! ?b) = length (h ! ?b)"
    using in_range raw(2) by (simp add: h'b)
  have ok': "ta_ok h' ta" using Cons.prems(3) len by (simp add: ta_ok_def h'_def)
  have "set_loop ta (Suc k) vs h' =
          (None, h'[?b := store (h' ! ?b) (ta_byteOffset ta + Suc k * ?w)
                      (concat (map (raw_bytes ?c) vs))])"
    by (rule Cons.IH [OF rvs k(2) ok'])
  moreover have "store (h' ! ?b) (ta_byteOffset ta + Suc k * ?w) (concat (map (raw_bytes ?c) vs))
                 = store (h ! ?b) ?pos (raw_bytes ?c v @ concat (map (raw_bytes ?c) vs))"
  proof -
    have eq1: "ta_byteOffset ta + Suc k * ?w = ?pos + length (raw_bytes ?c v)"
      using raw(2) by simp
    have le: "?pos + length (raw_bytes ?c v) + length (concat (map (raw_bytes ?c) vs)) \<le> length (h ! ?b)"
      using in_range raw(2) length_concat_raw [OF rvs] by simp
    show ?thesis unfolding h'b eq1 by (rule store_append [OF le])
  qed
  ultimately show ?case using put by (simp add: h'_def)
qed


lemma ta_elements_cong:
  "h ! ta_buffer a = h' ! ta_buffer a \<Longrightarrow> ta_elements h a = ta_elements h' a"
  by (simp add: ta_elements_def ta_get_def)

text \<open>Writing a well-formed field value stores its bytes at the member's index.\<close>

lemma write_field_store:
  assumes ok: "field_ok h0 (ta_buffer ta) (ta_type ta) n v"
    and ta: "ta_ok hc ta"
    and range: "idx + n \<le> ta_length ta"
    and same: "\<And>b'. b' \<noteq> ta_buffer ta \<Longrightarrow> hc ! b' = h0 ! b'"
  shows "(case v of Single x \<Rightarrow> ta_put hc ta (Num idx) x | source \<Rightarrow> ta_set hc ta source (Num idx))
         = (None, hc[ta_buffer ta := store (hc ! ta_buffer ta)
                       (ta_byteOffset ta + idx * BYTES_PER_ELEMENT (ta_type ta))
                       (field_bytes h0 (ta_type ta) v)])"
proof (cases v)
  case (Single x)
  with ok have r: "representable (ta_type ta) x" and n: "n = 1" by simp_all
  from representable_raw [OF r] range n show ?thesis
    using Single by (simp add: ta_put_store)
next
  case (Array xs)
  with ok have r: "\<forall>x \<in> set xs. representable (ta_type ta) x" and n: "length xs = n" by simp_all
  from range n have "idx + length xs \<le> ta_length ta" by simp
  from set_loop_store [OF r this ta] this show ?thesis
    using Array by (simp add: ta_set_def)
next
  case (TypedArr a)
  with ok have a: "ta_length a = n" "ta_buffer a \<noteq> ta_buffer ta"
    "is_BigInt_type (ta_type a) = is_BigInt_type (ta_type ta)"
    "\<forall>x \<in> set (ta_elements h0 a). representable (ta_type ta) x"
    by simp_all
  from same [OF a(2)] have src: "hc ! ta_buffer a = h0 ! ta_buffer a" .
  then have el: "ta_elements hc a = ta_elements h0 a" by (rule ta_elements_cong)
  from range a(1) have le: "idx + length (ta_elements h0 a) \<le> ta_length ta" by simp
  show ?thesis
  proof (cases "ta_type a = ta_type ta")
    case True
    then show ?thesis using TypedArr range a(1) src by (simp add: ta_set_def)
  next
    case False
    from set_loop_store [OF a(4) le ta] show ?thesis
      using TypedArr False range a(1,3) el by (simp add: ta_set_def)
  qed
qed

lemma placed_facts:
  assumes "placed sz al m"
  obtains c idx where "TypedArray (m_type m) = Constructor c" and "m_index m = Num idx"
    and "m_start m = idx * BYTES_PER_ELEMENT c"
    and "m_end m = (idx + m_count m) * BYTES_PER_ELEMENT c"
    and "m_end m \<le> sz"
proof -
  from assms obtain c where c: "TypedArray (m_type m) = Constructor c"
    using placed_Constructor by blast
  with assms obtain idx where i: "m_index m = Num idx"
    by (cases "m_index m") (simp_all add: placed_def)
  from assms c have "m_end m \<le> sz" by (simp add: placed_def)
  with c i that show thesis by (simp add: m_start_def m_end_def)
qed

lemma window_ok:
  assumes "buffer_ok h0 buffer" and "length hc = length h0"
    and "length (hc ! buffer_of buffer) = length (h0 ! buffer_of buffer)"
  shows "ta_ok hc (window h0 buffer c)"
proof -
  have "byteLength h0 buffer div BYTES_PER_ELEMENT c * BYTES_PER_ELEMENT c \<le> byteLength h0 buffer"
    by (rule div_mult_le_nat)
  with byteLength_fits [OF assms(1)] have
    "byteOffset buffer + byteLength h0 buffer div BYTES_PER_ELEMENT c * BYTES_PER_ELEMENT c
       \<le> length (h0 ! buffer_of buffer)" by linarith
  moreover have "buffer_of buffer < length h0" using assms(1) by (cases buffer) simp_all
  ultimately show ?thesis using assms(2,3) by (simp add: ta_ok_def window_def)
qed

lemma window_range:
  assumes "(idx + n) * BYTES_PER_ELEMENT c \<le> sz" and "sz \<le> byteLength h0 buffer"
  shows "idx + n \<le> ta_length (window h0 buffer c)"
proof -
  from assms have "(idx + n) * BYTES_PER_ELEMENT c \<le> byteLength h0 buffer" by simp
  then have "idx + n \<le> byteLength h0 buffer div BYTES_PER_ELEMENT c"
    by (simp add: less_eq_div_iff_mult_less_eq)
  then show ?thesis by (simp add: window_def)
qed

text \<open>
  The loop of \<open>struct_write\<close> over members that are placed, have their window and a
  well-formed value, and occupy disjoint ranges: it succeeds, changes only the buffer
  written to, leaves there the bytes of each value in the member's range, and touches
  no byte outside these ranges.
\<close>

lemma write_loop_effect:
  assumes bok: "buffer_ok h0 buffer" and big: "sz \<le> byteLength h0 buffer"
    and b: "b = buffer_of buffer" and off: "off = byteOffset buffer"
  shows "\<lbrakk>\<forall>(n, m) \<in> set es. placed sz al m;
          \<forall>(n, m) \<in> set es. \<forall>c. TypedArray (m_type m) = Constructor c \<longrightarrow>
             map_of views (m_type m) = Some (window h0 buffer c) \<and>
             field_ok h0 b c (m_count m) (prop_of s n);
          distinct (map fst es);
          \<forall>(n, m) \<in> set es. \<forall>(n', m') \<in> set es. n \<noteq> n' \<longrightarrow>
             m_end m \<le> m_start m' \<or> m_end m' \<le> m_start m;
          length hc = length h0; \<forall>b'. b' \<noteq> b \<longrightarrow> hc ! b' = h0 ! b';
          length (hc ! b) = length (h0 ! b)\<rbrakk>
         \<Longrightarrow> \<exists>h1. write_loop views s es hc = (None, h1) \<and>
               length h1 = length h0 \<and> (\<forall>b'. b' \<noteq> b \<longrightarrow> h1 ! b' = h0 ! b') \<and>
               length (h1 ! b) = length (h0 ! b) \<and>
               (\<forall>(n, m) \<in> set es. \<forall>c. TypedArray (m_type m) = Constructor c \<longrightarrow>
                  load (h1 ! b) (off + m_start m) (m_count m * BYTES_PER_ELEMENT c)
                    = field_bytes h0 c (prop_of s n)) \<and>
               (\<forall>i < length (h0 ! b).
                  (\<forall>(n, m) \<in> set es. \<not> (off + m_start m \<le> i \<and> i < off + m_end m))
                  \<longrightarrow> h1 ! b ! i = hc ! b ! i)"
proof (induction es arbitrary: hc)
  case Nil
  then show ?case by simp
next
  case (Cons e es)
  obtain n m where e: "e = (n, m)" by (cases e)
  from Cons.prems(1) e have pl: "placed sz al m" by simp
  from placed_facts [OF pl] obtain c idx where c: "TypedArray (m_type m) = Constructor c"
    and idx: "m_index m = Num idx" and st: "m_start m = idx * BYTES_PER_ELEMENT c"
    and en: "m_end m = (idx + m_count m) * BYTES_PER_ELEMENT c" and ensz: "m_end m \<le> sz"
    by blast
  let ?w = "BYTES_PER_ELEMENT c" and ?v = "prop_of s n" and ?ta = "window h0 buffer c"
  let ?fb = "field_bytes h0 c ?v"
  from Cons.prems(2) e c have view: "map_of views (m_type m) = Some ?ta"
    and fok: "field_ok h0 b c (m_count m) ?v" by auto
  have tab: "ta_buffer ?ta = b" "ta_byteOffset ?ta = off" "ta_type ?ta = c"
    by (simp_all add: window_def b off)
  have taok: "ta_ok hc ?ta"
    using window_ok [OF bok Cons.prems(5)] Cons.prems(7) b by simp
  have range: "idx + m_count m \<le> ta_length ?ta"
    using window_range [OF _ big] en ensz by simp
  have blt: "b < length hc" using bok b Cons.prems(5) by (cases buffer) simp_all
  from decode_field_bytes [OF fok] have lenfb: "length ?fb = m_count m * ?w" by simp
  have fit: "off + m_end m \<le> length (hc ! b)"
  proof -
    have "off + byteLength h0 buffer \<le> length (h0 ! b)"
      using byteLength_fits [OF bok] b off by simp
    with ensz big Cons.prems(7) show ?thesis by simp
  qed
  have pos: "off + m_start m + length ?fb = off + m_end m"
    using st en lenfb by (simp add: algebra_simps)
  define h' where "h' = hc[b := store (hc ! b) (off + m_start m) ?fb]"
  have step: "(case ?v of Single x \<Rightarrow> ta_put hc ?ta (m_index m) x
                | source \<Rightarrow> ta_set hc ?ta source (m_index m)) = (None, h')"
    unfolding idx
    using write_field_store [of h0 ?ta "m_count m" ?v hc idx] fok taok range Cons.prems(6)
    by (simp add: tab st h'_def)
  have h'b: "h' ! b = store (hc ! b) (off + m_start m) ?fb" using blt by (simp add: h'_def)
  have h'1: "length h' = length h0" using Cons.prems(5) by (simp add: h'_def)
  have h'2: "\<forall>b'. b' \<noteq> b \<longrightarrow> h' ! b' = h0 ! b'" using Cons.prems(6) by (simp add: h'_def)
  have h'3: "length (h' ! b) = length (h0 ! b)"
    using fit pos Cons.prems(7) by (simp add: h'b)
  from Cons.prems(1,2,3,4) have rest:
    "\<forall>(n, m) \<in> set es. placed sz al m"
    "\<forall>(n, m) \<in> set es. \<forall>c. TypedArray (m_type m) = Constructor c \<longrightarrow>
             map_of views (m_type m) = Some (window h0 buffer c) \<and>
             field_ok h0 b c (m_count m) (prop_of s n)"
    "distinct (map fst es)"
    "\<forall>(n, m) \<in> set es. \<forall>(n', m') \<in> set es. n \<noteq> n' \<longrightarrow>
             m_end m \<le> m_start m' \<or> m_end m' \<le> m_start m"
    by auto
  from Cons.IH [OF rest h'1 h'2 h'3] obtain h1 where
    w: "write_loop views s es h' = (None, h1)"
    and f1: "length h1 = length h0" and f2: "\<forall>b'. b' \<noteq> b \<longrightarrow> h1 ! b' = h0 ! b'"
    and f3: "length (h1 ! b) = length (h0 ! b)"
    and lo: "\<forall>(n, m) \<in> set es. \<forall>c. TypedArray (m_type m) = Constructor c \<longrightarrow>
               load (h1 ! b) (off + m_start m) (m_count m * BYTES_PER_ELEMENT c)
                 = field_bytes h0 c (prop_of s n)"
    and fr: "\<forall>i < length (h0 ! b).
               (\<forall>(n, m) \<in> set es. \<not> (off + m_start m \<le> i \<and> i < off + m_end m))
               \<longrightarrow> h1 ! b ! i = h' ! b ! i"
    by blast
  have wl: "write_loop views s (e # es) hc = (None, h1)"
    using view step w e by simp
  have others: "\<not> (off + m_start m' \<le> i \<and> i < off + m_end m')"
    if "(n', m') \<in> set es" "off + m_start m \<le> i" "i < off + m_end m" for n' m' i
  proof -
    from that(1) Cons.prems(3) e have "n \<noteq> n'" by force
    with Cons.prems(4) that(1) e have "m_end m \<le> m_start m' \<or> m_end m' \<le> m_start m" by auto
    with that(2,3) show ?thesis by linarith
  qed
  have mine: "load (h1 ! b) (off + m_start m) (m_count m * ?w) = ?fb"
  proof -
    have "load (h1 ! b) (off + m_start m) (length ?fb) = load (h' ! b) (off + m_start m) (length ?fb)"
    proof (rule load_cong)
      show "off + m_start m + length ?fb \<le> length (h' ! b)" using pos fit h'3 Cons.prems(7) by simp
      show "length (h1 ! b) = length (h' ! b)" using f3 h'3 by simp
    next
      fix i assume i: "off + m_start m \<le> i" "i < off + m_start m + length ?fb"
      then have "i < length (h0 ! b)" using pos fit Cons.prems(7) by simp
      moreover have "\<forall>(n', m') \<in> set es. \<not> (off + m_start m' \<le> i \<and> i < off + m_end m')"
        using others i pos by auto
      ultimately show "h1 ! b ! i = h' ! b ! i" using fr by blast
    qed
    also have "\<dots> = ?fb" unfolding h'b
      by (rule load_store_same) (use pos fit in simp)
    finally show ?thesis by (simp add: lenfb)
  qed
  have frame: "h1 ! b ! i = hc ! b ! i"
    if "i < length (h0 ! b)"
       "\<forall>(n, m) \<in> set (e # es). \<not> (off + m_start m \<le> i \<and> i < off + m_end m)" for i
  proof -
    from that(2) have "\<forall>(n, m) \<in> set es. \<not> (off + m_start m \<le> i \<and> i < off + m_end m)" by simp
    with fr that(1) have "h1 ! b ! i = h' ! b ! i" by blast
    also have "\<dots> = hc ! b ! i"
    proof -
      have out: "\<not> (off + m_start m \<le> i \<and> i < off + m_start m + length ?fb)"
        unfolding pos using that(2) e by simp
      have i: "i < length (hc ! b)" using that(1) Cons.prems(7) by simp
      have le: "off + m_start m + length ?fb \<le> length (hc ! b)" unfolding pos by (rule fit)
      show ?thesis unfolding h'b nth_store [OF le i] using out by (simp only: if_False)
    qed
    finally show ?thesis .
  qed
  have all: "\<forall>(n', m') \<in> set (e # es). \<forall>c. TypedArray (m_type m') = Constructor c \<longrightarrow>
               load (h1 ! b) (off + m_start m') (m_count m' * BYTES_PER_ELEMENT c)
                 = field_bytes h0 c (prop_of s n')"
    using lo mine c e by auto
  from wl f1 f2 f3 all frame show ?case by blast
qed

section \<open>The effect of reading\<close>

lemma ta_get_window:
  assumes "k < ta_length ta"
  shows "ta_get h ta (Num k) =
           RawBytesToNumeric (ta_type ta)
             (load (h ! ta_buffer ta) (ta_byteOffset ta + k * BYTES_PER_ELEMENT (ta_type ta))
                (BYTES_PER_ELEMENT (ta_type ta)))"
  using assms by (simp add: ta_get_def)

lemma ta_slice_window:
  assumes "idx + n \<le> ta_length ta"
  shows "ta_slice h ta (Num idx) (number_plus (Num idx) (Num n)) =
           (\<lparr>ta_buffer = length h, ta_byteOffset = 0, ta_length = n, ta_type = ta_type ta\<rparr>,
            h @ [load (h ! ta_buffer ta)
                   (ta_byteOffset ta + idx * BYTES_PER_ELEMENT (ta_type ta))
                   (n * BYTES_PER_ELEMENT (ta_type ta))])"
  using assms by (simp add: ta_slice_def Let_def min_def)

text \<open>
  The loop of \<open>struct_read\<close> over members that are placed and have their window: it
  succeeds, only appends buffers to the heap, and binds each name to the elements held
  in the member's byte range: a scalar for a count of \<open>1\<close>, and otherwise a typed array
  on a buffer allocated by the loop.
\<close>

lemma read_loop_effect:
  assumes bok: "buffer_ok h1 buffer" and big: "sz \<le> byteLength h1 buffer"
    and b: "b = buffer_of buffer" and off: "off = byteOffset buffer"
  shows "\<lbrakk>\<forall>(n, m) \<in> set es. placed sz al m;
          \<forall>(n, m) \<in> set es. \<forall>c. TypedArray (m_type m) = Constructor c \<longrightarrow>
             map_of views (m_type m) = Some (window h1 buffer c);
          distinct (map fst es);
          \<exists>extra. hc = h1 @ extra\<rbrakk>
         \<Longrightarrow> \<exists>r h2. read_loop views es acc hc = Inr (r, h2) \<and>
               (\<exists>extra. h2 = hc @ extra) \<and>
               (\<forall>(n, m) \<in> set es. \<forall>c. TypedArray (m_type m) = Constructor c \<longrightarrow>
                  (\<exists>v. map_of r n = Some v \<and>
                     elements_of h2 v
                       = decode_all c (load (h1 ! b) (off + m_start m)
                                         (m_count m * BYTES_PER_ELEMENT c)) (m_count m) \<and>
                     (if m_count m = 1 then \<exists>x. v = Single x
                      else \<exists>a. v = TypedArr a \<and> ta_ok h2 a \<and> length hc \<le> ta_buffer a \<and>
                               ta_length a = m_count m \<and> ta_type a = c))) \<and>
               (\<forall>k. k \<notin> fst ` set es \<longrightarrow> map_of r k = map_of acc k)"
proof (induction es arbitrary: acc hc)
  case Nil
  then show ?case by simp
next
  case (Cons e es)
  obtain n m where e: "e = (n, m)" by (cases e)
  from Cons.prems(1) e have pl: "placed sz al m" by simp
  from placed_facts [OF pl] obtain c idx where c: "TypedArray (m_type m) = Constructor c"
    and idx: "m_index m = Num idx" and st: "m_start m = idx * BYTES_PER_ELEMENT c"
    and en: "m_end m = (idx + m_count m) * BYTES_PER_ELEMENT c" and ensz: "m_end m \<le> sz"
    by blast
  let ?w = "BYTES_PER_ELEMENT c" and ?ta = "window h1 buffer c"
  let ?bytes = "load (h1 ! b) (off + m_start m) (m_count m * ?w)"
  from Cons.prems(2) e c have view: "map_of views (m_type m) = Some ?ta" by auto
  have tab: "ta_buffer ?ta = b" "ta_byteOffset ?ta = off" "ta_type ?ta = c"
    by (simp_all add: window_def b off)
  have range: "idx + m_count m \<le> ta_length ?ta"
    using window_range [OF _ big] en ensz by simp
  from Cons.prems(4) obtain extra0 where hc: "hc = h1 @ extra0" by blast
  have blt: "b < length h1" using bok b by (cases buffer) simp_all
  then have hcb: "hc ! b = h1 ! b" by (simp add: hc nth_append)
  have fit: "off + m_start m + m_count m * ?w \<le> length (h1 ! b)"
  proof -
    have "off + byteLength h1 buffer \<le> length (h1 ! b)"
      using byteLength_fits [OF bok] b off by simp
    moreover have "m_start m + m_count m * ?w = m_end m" using st en by (simp add: algebra_simps)
    ultimately show ?thesis using ensz big by simp
  qed
  from Cons.prems(1,2,3) have rest:
    "\<forall>(n, m) \<in> set es. placed sz al m"
    "\<forall>(n, m) \<in> set es. \<forall>c. TypedArray (m_type m) = Constructor c \<longrightarrow>
             map_of views (m_type m) = Some (window h1 buffer c)"
    "distinct (map fst es)"
    by auto
  from Cons.prems(3) e have nfresh: "n \<notin> fst ` set es" by simp
  show ?case
  proof (cases "m_count m = 1")
    case True
    define x where "x = ta_get hc ?ta (Num idx)"
    from Cons.IH [OF rest Cons.prems(4), of "AList.update n (Single x) acc"]
    obtain r h2 where rl: "read_loop views es (AList.update n (Single x) acc) hc = Inr (r, h2)"
      and ex: "\<exists>extra. h2 = hc @ extra"
      and el: "\<forall>(n, m) \<in> set es. \<forall>c. TypedArray (m_type m) = Constructor c \<longrightarrow>
                  (\<exists>v. map_of r n = Some v \<and>
                     elements_of h2 v
                       = decode_all c (load (h1 ! b) (off + m_start m)
                                         (m_count m * BYTES_PER_ELEMENT c)) (m_count m) \<and>
                     (if m_count m = 1 then \<exists>x. v = Single x
                      else \<exists>a. v = TypedArr a \<and> ta_ok h2 a \<and> length hc \<le> ta_buffer a \<and>
                               ta_length a = m_count m \<and> ta_type a = c))"
      and ot: "\<forall>k. k \<notin> fst ` set es \<longrightarrow> map_of r k = map_of (AList.update n (Single x) acc) k"
      by blast
    have step: "read_loop views (e # es) acc hc = Inr (r, h2)"
      using view True rl e idx by (simp add: x_def)
    have mine: "map_of r n = Some (Single x)" using ot nfresh by (simp add: update_conv')
    have "x = RawBytesToNumeric c (load (h1 ! b) (off + m_start m) ?w)"
      using ta_get_window [of idx ?ta hc] range True by (simp add: x_def tab hcb st)
    moreover have "load ?bytes 0 ?w = load (h1 ! b) (off + m_start m) ?w"
      using load_load [of 0 ?w "m_count m * ?w" "h1 ! b" "off + m_start m"] True by simp
    ultimately have val: "elements_of h2 (Single x) = decode_all c ?bytes (m_count m)"
      using True by (simp add: decode_all_def)
    have others: "\<forall>k. k \<notin> fst ` set (e # es) \<longrightarrow> map_of r k = map_of acc k"
      using ot e by (simp add: update_conv')
    have all: "\<forall>(n', m') \<in> set (e # es). \<forall>c. TypedArray (m_type m') = Constructor c \<longrightarrow>
                  (\<exists>v. map_of r n' = Some v \<and>
                     elements_of h2 v
                       = decode_all c (load (h1 ! b) (off + m_start m')
                                         (m_count m' * BYTES_PER_ELEMENT c)) (m_count m') \<and>
                     (if m_count m' = 1 then \<exists>x. v = Single x
                      else \<exists>a. v = TypedArr a \<and> ta_ok h2 a \<and> length hc \<le> ta_buffer a \<and>
                               ta_length a = m_count m' \<and> ta_type a = c))"
      using el mine val True c e by auto
    from step ex all others show ?thesis by blast
  next
    case False
    define a where "a = \<lparr>ta_buffer = length hc, ta_byteOffset = 0, ta_length = m_count m, ta_type = c\<rparr>"
    define h' where "h' = hc @ [?bytes]"
    have sl: "ta_slice hc ?ta (m_index m) (number_plus (m_index m) (Num (m_count m))) = (a, h')"
      unfolding idx using ta_slice_window [OF range, of hc]
      by (simp add: tab hcb st a_def h'_def)
    have pre: "\<exists>extra. h' = h1 @ extra" by (simp add: h'_def hc)
    from Cons.IH [OF rest pre, of "AList.update n (TypedArr a) acc"]
    obtain r h2 where rl: "read_loop views es (AList.update n (TypedArr a) acc) h' = Inr (r, h2)"
      and ex: "\<exists>extra. h2 = h' @ extra"
      and el: "\<forall>(n, m) \<in> set es. \<forall>c. TypedArray (m_type m) = Constructor c \<longrightarrow>
                  (\<exists>v. map_of r n = Some v \<and>
                     elements_of h2 v
                       = decode_all c (load (h1 ! b) (off + m_start m)
                                         (m_count m * BYTES_PER_ELEMENT c)) (m_count m) \<and>
                     (if m_count m = 1 then \<exists>x. v = Single x
                      else \<exists>a. v = TypedArr a \<and> ta_ok h2 a \<and> length h' \<le> ta_buffer a \<and>
                               ta_length a = m_count m \<and> ta_type a = c))"
      and ot: "\<forall>k. k \<notin> fst ` set es \<longrightarrow> map_of r k = map_of (AList.update n (TypedArr a) acc) k"
      by blast
    have step: "read_loop views (e # es) acc hc = Inr (r, h2)"
      using view False rl e sl by simp
    from ex obtain extra where h2: "h2 = hc @ ?bytes # extra" by (auto simp: h'_def)
    have mine: "map_of r n = Some (TypedArr a)" using ot nfresh by (simp add: update_conv')
    have h2a: "h2 ! ta_buffer a = ?bytes" by (simp add: a_def h2 nth_append)
    have lenb: "length ?bytes = m_count m * ?w" using fit by simp
    have aok: "ta_ok h2 a" using lenb by (simp add: ta_ok_def a_def h2 nth_append)
    have val: "elements_of h2 (TypedArr a) = decode_all c ?bytes (m_count m)"
      using decode_all_window [OF aok] h2a lenb by (simp add: a_def load_all)
    have others: "\<forall>k. k \<notin> fst ` set (e # es) \<longrightarrow> map_of r k = map_of acc k"
      using ot e by (simp add: update_conv')
    have len: "length hc \<le> length h'" by (simp add: h'_def)
    have all: "\<forall>(n', m') \<in> set (e # es). \<forall>c. TypedArray (m_type m') = Constructor c \<longrightarrow>
                  (\<exists>v. map_of r n' = Some v \<and>
                     elements_of h2 v
                       = decode_all c (load (h1 ! b) (off + m_start m')
                                         (m_count m' * BYTES_PER_ELEMENT c)) (m_count m') \<and>
                     (if m_count m' = 1 then \<exists>x. v = Single x
                      else \<exists>a. v = TypedArr a \<and> ta_ok h2 a \<and> length hc \<le> ta_buffer a \<and>
                               ta_length a = m_count m' \<and> ta_type a = c))"
    proof (intro ballI, clarify)
      fix n' m' c'
      assume in_set: "(n', m') \<in> set (e # es)" and c': "TypedArray (m_type m') = Constructor c'"
      show "\<exists>v. map_of r n' = Some v \<and>
                 elements_of h2 v
                   = decode_all c' (load (h1 ! b) (off + m_start m')
                                     (m_count m' * BYTES_PER_ELEMENT c')) (m_count m') \<and>
                 (if m_count m' = 1 then \<exists>x. v = Single x
                  else \<exists>a. v = TypedArr a \<and> ta_ok h2 a \<and> length hc \<le> ta_buffer a \<and>
                           ta_length a = m_count m' \<and> ta_type a = c')"
      proof (cases "(n', m') = (n, m)")
        case True
        then have "c' = c" using c c' by simp
        with True mine val False aok show ?thesis by (simp add: a_def)
      next
        case False
        with in_set e have "(n', m') \<in> set es" by auto
        with el c' obtain v where v: "map_of r n' = Some v"
          "elements_of h2 v = decode_all c' (load (h1 ! b) (off + m_start m')
                                     (m_count m' * BYTES_PER_ELEMENT c')) (m_count m')"
          "if m_count m' = 1 then \<exists>x. v = Single x
           else \<exists>a. v = TypedArr a \<and> ta_ok h2 a \<and> length h' \<le> ta_buffer a \<and>
                    ta_length a = m_count m' \<and> ta_type a = c'"
          by blast
        from v(3) len have "if m_count m' = 1 then \<exists>x. v = Single x
           else \<exists>a. v = TypedArr a \<and> ta_ok h2 a \<and> length hc \<le> ta_buffer a \<and>
                    ta_length a = m_count m' \<and> ta_type a = c'"
          by (auto split: if_splits)
        with v(1,2) show ?thesis by blast
      qed
    qed
    have "\<exists>extra. h2 = hc @ extra" using h2 by blast
    with step all others show ?thesis by blast
  qed
qed

section \<open>Writing and reading back\<close>

lemma layout_inv_numbers:
  assumes "layout_inv t"
  obtains sz al where "size_bytes t = Num sz" and "alignment t = Num al"
    and "distinct (map fst (schema t))"
    and "\<forall>(n, m) \<in> set (schema t). placed sz al m"
    and "\<forall>(n, m) \<in> set (schema t). \<forall>(n', m') \<in> set (schema t). n \<noteq> n' \<longrightarrow>
           m_end m \<le> m_start m' \<or> m_end m' \<le> m_start m"
proof -
  from assms obtain sz al where sa: "size_bytes t = Num sz" "alignment t = Num al"
    by (cases "size_bytes t"; cases "alignment t") (simp_all add: layout_inv_def)
  with assms have d: "distinct (map fst (schema t))"
    and pl: "\<And>n m. map_of (schema t) n = Some m \<Longrightarrow> placed sz al m"
    and ap: "\<And>n m n' m'. map_of (schema t) n = Some m \<Longrightarrow> map_of (schema t) n' = Some m' \<Longrightarrow> n \<noteq> n'
               \<Longrightarrow> m_end m \<le> m_start m' \<or> m_end m' \<le> m_start m"
    by (auto simp: layout_inv_def)
  have "\<forall>(n, m) \<in> set (schema t). placed sz al m"
    using pl d by auto
  moreover have "\<forall>(n, m) \<in> set (schema t). \<forall>(n', m') \<in> set (schema t). n \<noteq> n' \<longrightarrow>
           m_end m \<le> m_start m' \<or> m_end m' \<le> m_start m"
  proof (intro ballI, clarify)
    fix n m n' m'
    assume "(n, m) \<in> set (schema t)" "(n', m') \<in> set (schema t)" "n \<noteq> n'"
      "\<not> m_end m' \<le> m_start m"
    with d ap [of n m n' m'] show "m_end m \<le> m_start m'" by auto
  qed
  ultimately show thesis using that sa d by blast
qed

text \<open>
  \<open>struct_write\<close> of an instance with well-formed field values into a buffer that is
  large enough and aligned: it succeeds, changes only that buffer, and leaves the bytes
  of each field value in the byte range of its member.
\<close>

lemma struct_write_effect:
  assumes inv: "layout_inv (template s)" and bok: "buffer_ok h buffer"
    and big: "\<not> less_number (byteLength h buffer) (size_bytes (template s))"
    and al: "\<not> misaligned (byteOffset buffer) (alignment (template s))"
    and fok: "fields_ok h (buffer_of buffer) s"
  shows "\<exists>h1. struct_write s buffer h = (None, h1) \<and> length h1 = length h \<and>
           (\<forall>b'. b' \<noteq> buffer_of buffer \<longrightarrow> h1 ! b' = h ! b') \<and>
           length (h1 ! buffer_of buffer) = length (h ! buffer_of buffer) \<and>
           (\<forall>(n, m) \<in> set (schema (template s)). \<forall>c. TypedArray (m_type m) = Constructor c \<longrightarrow>
              load (h1 ! buffer_of buffer) (byteOffset buffer + m_start m)
                   (m_count m * BYTES_PER_ELEMENT c)
                = field_bytes h c (prop_of s n))"
proof -
  let ?t = "template s"
  from layout_inv_numbers [OF inv] obtain sz a where sz: "size_bytes ?t = Num sz"
    and a: "alignment ?t = Num a" and d: "distinct (map fst (schema ?t))"
    and pl: "\<forall>(n, m) \<in> set (schema ?t). placed sz a m"
    and ap: "\<forall>(n, m) \<in> set (schema ?t). \<forall>(n', m') \<in> set (schema ?t). n \<noteq> n' \<longrightarrow>
               m_end m \<le> m_start m' \<or> m_end m' \<le> m_start m"
    by blast
  from big sz have le: "sz \<le> byteLength h buffer" by simp
  from createViews_ok [OF inv bok al] obtain views where cv: "createViews h buffer ?t = Inr views"
    and vs: "\<forall>(n, m) \<in> set (schema ?t). \<exists>c. TypedArray (m_type m) = Constructor c \<and>
               map_of views (m_type m) = Some (window h buffer c)"
    by blast
  have each: "\<forall>(n, m) \<in> set (schema ?t). \<forall>c. TypedArray (m_type m) = Constructor c \<longrightarrow>
             map_of views (m_type m) = Some (window h buffer c) \<and>
             field_ok h (buffer_of buffer) c (m_count m) (prop_of s n)"
  proof (intro ballI, clarify)
    fix n m c
    assume nm: "(n, m) \<in> set (schema ?t)" and c: "TypedArray (m_type m) = Constructor c"
    with vs obtain c' where "TypedArray (m_type m) = Constructor c'"
      "map_of views (m_type m) = Some (window h buffer c')" by blast
    with c have "map_of views (m_type m) = Some (window h buffer c)" by simp
    moreover from fok nm c have "field_ok h (buffer_of buffer) c (m_count m) (prop_of s n)"
      by (auto simp: fields_ok_def)
    ultimately show "map_of views (m_type m) = Some (window h buffer c) \<and>
             field_ok h (buffer_of buffer) c (m_count m) (prop_of s n)" by simp
  qed
  have triv: "\<forall>b'. b' \<noteq> buffer_of buffer \<longrightarrow> h ! b' = h ! b'" by simp
  from write_loop_effect [OF bok le refl refl pl each d ap refl triv refl]
  obtain h1 where "write_loop views s (schema ?t) h = (None, h1)"
    and "length h1 = length h"
    and "\<forall>b'. b' \<noteq> buffer_of buffer \<longrightarrow> h1 ! b' = h ! b'"
    and "length (h1 ! buffer_of buffer) = length (h ! buffer_of buffer)"
    and "\<forall>(n, m) \<in> set (schema ?t). \<forall>c. TypedArray (m_type m) = Constructor c \<longrightarrow>
              load (h1 ! buffer_of buffer) (byteOffset buffer + m_start m)
                   (m_count m * BYTES_PER_ELEMENT c)
                = field_bytes h c (prop_of s n)"
    by (elim exE conjE) (rule that, assumption+)
  moreover have "struct_write s buffer h = write_loop views s (schema ?t) h"
    using big cv by (simp add: struct_write_def)
  ultimately show ?thesis by simp
qed

text \<open>
  \<open>struct_read\<close> from a buffer that is large enough and aligned: it succeeds, only
  appends buffers, and binds each member's name to the elements in its byte range.
\<close>

lemma struct_read_effect:
  assumes inv: "layout_inv t" and bok: "buffer_ok h1 buffer"
    and big: "\<not> less_number (byteLength h1 buffer) (size_bytes t)"
    and al: "\<not> misaligned (byteOffset buffer) (alignment t)"
  shows "\<exists>r h2. struct_read t buffer h1 = Inr (r, h2) \<and> template r = t \<and>
           (\<exists>extra. h2 = h1 @ extra) \<and>
           (\<forall>(n, m) \<in> set (schema t). \<forall>c. TypedArray (m_type m) = Constructor c \<longrightarrow>
              (\<exists>v. map_of (props r) n = Some v \<and>
                 elements_of h2 v
                   = decode_all c (load (h1 ! buffer_of buffer) (byteOffset buffer + m_start m)
                                     (m_count m * BYTES_PER_ELEMENT c)) (m_count m) \<and>
                 (if m_count m = 1 then \<exists>x. v = Single x
                  else \<exists>a. v = TypedArr a \<and> ta_ok h2 a \<and> length h1 \<le> ta_buffer a \<and>
                           ta_length a = m_count m \<and> ta_type a = c)))"
proof -
  from layout_inv_numbers [OF inv] obtain sz a where sz: "size_bytes t = Num sz"
    and "alignment t = Num a" and d: "distinct (map fst (schema t))"
    and pl: "\<forall>(n, m) \<in> set (schema t). placed sz a m"
    and "\<forall>(n, m) \<in> set (schema t). \<forall>(n', m') \<in> set (schema t). n \<noteq> n' \<longrightarrow>
               m_end m \<le> m_start m' \<or> m_end m' \<le> m_start m"
    by blast
  from big sz have le: "sz \<le> byteLength h1 buffer" by simp
  from createViews_ok [OF inv bok al] obtain views where cv: "createViews h1 buffer t = Inr views"
    and vs: "\<forall>(n, m) \<in> set (schema t). \<exists>c. TypedArray (m_type m) = Constructor c \<and>
               map_of views (m_type m) = Some (window h1 buffer c)"
    by blast
  have each: "\<forall>(n, m) \<in> set (schema t). \<forall>c. TypedArray (m_type m) = Constructor c \<longrightarrow>
             map_of views (m_type m) = Some (window h1 buffer c)"
  proof (intro ballI, clarify)
    fix n m c
    assume "(n, m) \<in> set (schema t)" and c: "TypedArray (m_type m) = Constructor c"
    with vs obtain c' where "TypedArray (m_type m) = Constructor c'"
      "map_of views (m_type m) = Some (window h1 buffer c')" by blast
    with c show "map_of views (m_type m) = Some (window h1 buffer c)" by simp
  qed
  have pre: "\<exists>extra. h1 = h1 @ extra" by simp
  from read_loop_effect [OF bok le refl refl pl each d pre, where acc = "[]"]
  obtain r h2 where *: "read_loop views (schema t) [] h1 = Inr (r, h2) \<and>
      (\<exists>extra. h2 = h1 @ extra) \<and>
      (\<forall>(n, m) \<in> set (schema t). \<forall>c. TypedArray (m_type m) = Constructor c \<longrightarrow>
              (\<exists>v. map_of r n = Some v \<and>
                 elements_of h2 v
                   = decode_all c (load (h1 ! buffer_of buffer) (byteOffset buffer + m_start m)
                                     (m_count m * BYTES_PER_ELEMENT c)) (m_count m) \<and>
                 (if m_count m = 1 then \<exists>x. v = Single x
                  else \<exists>a. v = TypedArr a \<and> ta_ok h2 a \<and> length h1 \<le> ta_buffer a \<and>
                           ta_length a = m_count m \<and> ta_type a = c))) \<and>
      (\<forall>k. k \<notin> fst ` set (schema t) \<longrightarrow> map_of r k = map_of [] k)"
    by - (elim exE, rule that)
  note rl = * [THEN conjunct1] and ex = * [THEN conjunct2, THEN conjunct1]
    and el = * [THEN conjunct2, THEN conjunct2, THEN conjunct1]
  have "struct_read t buffer h1 = Inr (\<lparr>template = t, props = r\<rparr>, h2)"
    using big cv rl by (simp add: struct_read_def)
  with ex el show ?thesis by simp
qed

lemma buffer_ok_cong:
  assumes "length h1 = length h" and "length (h1 ! buffer_of buffer) = length (h ! buffer_of buffer)"
  shows "buffer_ok h1 buffer = buffer_ok h buffer \<and> byteLength h1 buffer = byteLength h buffer"
  using assms by (cases buffer) simp_all

text \<open>
  Claim C1, the round-trip law: take a layout built by \<open>struct\<close>, an instance of it
  whose field values are representable in the types of their members, and a buffer
  that is large enough and aligned. Then \<open>struct_write\<close> succeeds, \<open>struct_read\<close> of
  the written buffer succeeds, and the instance read holds, under every member's name,
  the same elements as the instance written. This covers every element type (an
  \<^verbatim>\<open>i64\<close> or \<^verbatim>\<open>u64\<close> element is a BigInt, stored in all its 64 bits) and every
  count.
\<close>

theorem write_read_roundtrip:
  assumes "struct ms = Inr t" and "template s = t" and "buffer_ok h buffer"
    and "\<not> less_number (byteLength h buffer) (size_bytes t)"
    and "\<not> misaligned (byteOffset buffer) (alignment t)"
    and "fields_ok h (buffer_of buffer) s"
  shows "\<exists>h1 r h2. struct_write s buffer h = (None, h1) \<and>
           struct_read t buffer h1 = Inr (r, h2) \<and>
           (\<forall>(n, m) \<in> set (schema t). elements_of h2 (prop_of r n) = elements_of h (prop_of s n))"
proof -
  have inv: "layout_inv t" using struct_layout_inv [OF assms(1,5)] .
  from struct_write_effect [of s h buffer] inv assms(2-6)
  obtain h1 where w: "struct_write s buffer h = (None, h1)" and l1: "length h1 = length h"
    and l2: "length (h1 ! buffer_of buffer) = length (h ! buffer_of buffer)"
    and stored: "\<forall>(n, m) \<in> set (schema t). \<forall>c. TypedArray (m_type m) = Constructor c \<longrightarrow>
              load (h1 ! buffer_of buffer) (byteOffset buffer + m_start m)
                   (m_count m * BYTES_PER_ELEMENT c)
                = field_bytes h c (prop_of s n)"
    by auto
  from buffer_ok_cong [OF l1 l2] assms(3,4)
  have bok1: "buffer_ok h1 buffer" and big1: "\<not> less_number (byteLength h1 buffer) (size_bytes t)"
    by simp_all
  from struct_read_effect [OF inv bok1 big1 assms(5)]
  obtain r h2 where rd: "struct_read t buffer h1 = Inr (r, h2)"
    and el: "\<forall>(n, m) \<in> set (schema t). \<forall>c. TypedArray (m_type m) = Constructor c \<longrightarrow>
              (\<exists>v. map_of (props r) n = Some v \<and>
                 elements_of h2 v
                   = decode_all c (load (h1 ! buffer_of buffer) (byteOffset buffer + m_start m)
                                     (m_count m * BYTES_PER_ELEMENT c)) (m_count m))"
    by blast
  have "elements_of h2 (prop_of r n) = elements_of h (prop_of s n)"
    if nm: "(n, m) \<in> set (schema t)" for n m
  proof -
    from assms(6,2) nm obtain c where c: "TypedArray (m_type m) = Constructor c"
      and fo: "field_ok h (buffer_of buffer) c (m_count m) (prop_of s n)"
      by (cases "TypedArray (m_type m)") (auto simp: fields_ok_def)
    from el nm c obtain v where v: "map_of (props r) n = Some v"
      "elements_of h2 v = decode_all c (load (h1 ! buffer_of buffer) (byteOffset buffer + m_start m)
                                     (m_count m * BYTES_PER_ELEMENT c)) (m_count m)"
      by blast
    from stored nm c have "load (h1 ! buffer_of buffer) (byteOffset buffer + m_start m)
                   (m_count m * BYTES_PER_ELEMENT c) = field_bytes h c (prop_of s n)" by blast
    with v decode_field_bytes [OF fo] show ?thesis by (simp add: prop_of_def)
  qed
  with w rd show ?thesis by blast
qed

section \<open>Evaluating the structure of the test suite\<close>

lemma bit_length_2: "bit_length 2 = 2"
  by (simp add: bit_length.simps)

lemma bit_length_8: "bit_length 8 = 4"
  by (simp add: bit_length.simps)

lemma double_of_int_0: "double_of_int 0 = 0"
  by (simp add: double_of_int_def)

lemma double_of_int_2: "double_of_int 2 = 0x4000000000000000"
  unfolding double_of_int_def Let_def by (simp add: bit_length_2)

lemma double_of_int_8: "double_of_int 8 = 0x4020000000000000"
  unfolding double_of_int_def Let_def by (simp add: bit_length_8)

lemma fields_0: "exp64 0 = 0" "man64 0 = 0" "sign64 0 = 0"
  by (simp_all add: exp64_def man64_def sign64_def)

lemma fields_2:
  "exp64 0x4000000000000000 = 1024" "man64 0x4000000000000000 = 0"
  "sign64 0x4000000000000000 = 0"
  by (simp_all add: exp64_def man64_def sign64_def)

lemma fields_8:
  "exp64 0x4020000000000000 = 1026" "man64 0x4020000000000000 = 0"
  "sign64 0x4020000000000000 = 0"
  by (simp_all add: exp64_def man64_def sign64_def)

lemma fields_4_5:
  "exp64 0x4012000000000000 = 1025" "man64 0x4012000000000000 = 0x2000000000000"
  "sign64 0x4012000000000000 = 0"
  by (simp_all add: exp64_def man64_def sign64_def)

lemma truncate64_0: "truncate64 0 = 0"
  by (simp add: truncate64_def sig64_def ex64_def fields_0)

lemma truncate64_2: "truncate64 0x4000000000000000 = 2"
  by (simp add: truncate64_def sig64_def ex64_def fields_2)

lemma truncate64_8: "truncate64 0x4020000000000000 = 8"
  by (simp add: truncate64_def sig64_def ex64_def fields_8)

lemma double_to_float_4_5: "double_to_float 0x4012000000000000 = 0x40900000"
  by (simp add: double_to_float_def is_NaN64_def sig64_def ex64_def fields_4_5 round_shift_def)

lemma float_to_double_4_5: "float_to_double 0x40900000 = 0x4012000000000000"
  by (simp add: float_to_double_def)

lemma le_bytes_1: "le_bytes 1 v = [of_nat (v mod 256)]"
  by simp

lemma le_bytes_4:
  "le_bytes 4 v = [of_nat (v mod 256), of_nat (v div 256 mod 256),
                   of_nat (v div 256 div 256 mod 256), of_nat (v div 256 div 256 div 256 mod 256)]"
proof -
  have "(4::nat) = Suc (Suc (Suc (Suc 0)))" by simp
  then show ?thesis by (simp only: le_bytes.simps)
qed

lemma le_bytes_8:
  "le_bytes 8 v = [of_nat (v mod 256), of_nat (v div 256 mod 256),
                   of_nat (v div 256 div 256 mod 256), of_nat (v div 256 div 256 div 256 mod 256),
                   of_nat (v div 256 div 256 div 256 div 256 mod 256),
                   of_nat (v div 256 div 256 div 256 div 256 div 256 mod 256),
                   of_nat (v div 256 div 256 div 256 div 256 div 256 div 256 mod 256),
                   of_nat (v div 256 div 256 div 256 div 256 div 256 div 256 div 256 mod 256)]"
proof -
  have "(8::nat) = Suc (Suc (Suc (Suc (Suc (Suc (Suc (Suc 0)))))))" by simp
  then show ?thesis by (simp only: le_bytes.simps)
qed

lemma raw_i64_4: "NumericToRawBytes i64 (BigInt 4) = Inr [4, 0, 0, 0, 0, 0, 0, 0]"
  by (simp add: NumericToRawBytes_def is_BigInt_type_def le_bytes_8)

lemma raw_u8_0: "NumericToRawBytes u8 (Number 0) = Inr [0]"
  by (simp add: NumericToRawBytes_def is_BigInt_type_def truncate64_0 le_bytes_1)

lemma raw_u8_2: "NumericToRawBytes u8 (Number 0x4000000000000000) = Inr [2]"
  by (simp add: NumericToRawBytes_def is_BigInt_type_def truncate64_2 le_bytes_1)

lemma raw_u8_8: "NumericToRawBytes u8 (Number 0x4020000000000000) = Inr [8]"
  by (simp add: NumericToRawBytes_def is_BigInt_type_def truncate64_8 le_bytes_1)

lemma raw_f32_4_5: "NumericToRawBytes f32 (Number 0x4012000000000000) = Inr [0, 0, 0x90, 0x40]"
  by (simp add: NumericToRawBytes_def is_BigInt_type_def double_to_float_4_5 le_bytes_4)

lemma num_i64_4: "RawBytesToNumeric i64 [4, 0, 0, 0, 0, 0, 0, 0] = BigInt 4"
  by (simp add: to_signed_def)

lemma num_u8_0: "RawBytesToNumeric u8 [0] = Number 0"
  by (simp add: double_of_int_0)

lemma num_u8_2: "RawBytesToNumeric u8 [2] = Number 0x4000000000000000"
  by (simp add: double_of_int_2)

lemma num_u8_8: "RawBytesToNumeric u8 [8] = Number 0x4020000000000000"
  by (simp add: double_of_int_8)

lemma num_f32_4_5: "RawBytesToNumeric f32 [0, 0, 0x90, 0x40] = Number 0x4012000000000000"
  by (simp add: float_to_double_4_5)

lemmas Message_values =
  raw_i64_4 raw_u8_0 raw_u8_2 raw_u8_8 raw_f32_4_5
  num_i64_4 num_u8_0 num_u8_2 num_u8_8 num_f32_4_5
  double_of_int_0 double_of_int_2 double_of_int_8

lemma TypedArray_Message:
  "TypedArray ''i64'' = Constructor i64" "TypedArray ''u8'' = Constructor u8"
  "TypedArray ''f32'' = Constructor f32"
  by (simp_all add: TypedArray_def TypedArray_keys_def)

lemma createViews_Message:
  "length bs = 16 \<Longrightarrow>
   createViews (bs # hs) (ArrayBuffer 0) Message_template
     = Inr [(''i64'', \<lparr>ta_buffer = 0, ta_byteOffset = 0, ta_length = 2, ta_type = i64\<rparr>),
            (''u8'', \<lparr>ta_buffer = 0, ta_byteOffset = 0, ta_length = 16, ta_type = u8\<rparr>),
            (''f32'', \<lparr>ta_buffer = 0, ta_byteOffset = 0, ta_length = 4, ta_type = f32\<rparr>)]"
  by (simp add: createViews_def new_TypedArray_def Message_template_def schema_types_def
      Set_add_def TypedArray_Message)

lemma write_Message:
  "struct_write Message_instance (ArrayBuffer 0) [[0, 0, 0, 0, 0, 0, 0, 0, 0, 0, 0, 0, 0, 0, 0, 0]]
     = (None, [[4, 0, 0, 0, 0, 0, 0, 0, 0, 2, 8, 0, 0, 0, 0x90, 0x40]])"
  apply (simp add: struct_write_def Message_instance_def createViews_Message)
  apply (simp add: Message_template_def prop_of_def ta_put_def ta_set_def store_def Message_values)
  done

lemma read_Message:
  "struct_read Message_template (ArrayBuffer 0) [[4, 0, 0, 0, 0, 0, 0, 0, 0, 2, 8, 0, 0, 0, 0x90, 0x40]]
     = Inr (\<lparr>template = Message_template,
             props = [(''big'', Single (BigInt 4)),
                      (''smol'', TypedArr \<lparr>ta_buffer = 1, ta_byteOffset = 0, ta_length = 3,
                                           ta_type = u8\<rparr>),
                      (''float'', Single (Number 0x4012000000000000))]\<rparr>,
            [[4, 0, 0, 0, 0, 0, 0, 0, 0, 2, 8, 0, 0, 0, 0x90, 0x40], [0, 2, 8]])"
  apply (simp add: struct_read_def createViews_Message)
  apply (simp add: Message_template_def ta_get_def ta_slice_def load_def to_signed_def
      float_to_double_4_5)
  done

lemma elements_smol:
  "ta_elements [bs, [0, 2, 8]] \<lparr>ta_buffer = 1, ta_byteOffset = 0, ta_length = 3, ta_type = u8\<rparr>
     = [Number (double_of_int 0), Number (double_of_int 2), Number (double_of_int 8)]"
proof -
  have "[0..<3] = [0, 1, 2]" by (simp add: upt_rec)
  then show ?thesis by (simp add: ta_elements_def ta_get_def load_def)
qed

text \<open>
  Claim C2: the three fields give a layout of total size 16 and alignment 8 with the
  element offsets 0, 8 and 3; writing \<^verbatim>\<open>big = 4n\<close>, \<^verbatim>\<open>smol = [0, 2, 8]\<close> and
  \<^verbatim>\<open>float = 4.5\<close> into a buffer of 16 bytes and reading it back yields the same three
  values: the BigInt 4, a sequence of the elements 0, 2 and 8 (a typed array on a buffer
  of its own) and the number 4.5.
\<close>

theorem scenario_A:
  "struct Message =
     Inr \<lparr>size_bytes = Num 16, alignment = Num 8,
          schema = [(''big'', \<lparr>m_type = ''i64'', m_count = 1, m_index = Num 0\<rparr>),
                    (''smol'', \<lparr>m_type = ''u8'', m_count = 3, m_index = Num 8\<rparr>),
                    (''float'', \<lparr>m_type = ''f32'', m_count = 1, m_index = Num 3\<rparr>)]\<rparr> \<and>
   struct_write Message_instance (ArrayBuffer 0)
       [[0, 0, 0, 0, 0, 0, 0, 0, 0, 0, 0, 0, 0, 0, 0, 0]]
     = (None, [[4, 0, 0, 0, 0, 0, 0, 0, 0, 2, 8, 0, 0, 0, 0x90, 0x40]]) \<and>
   struct_read Message_template (ArrayBuffer 0)
       [[4, 0, 0, 0, 0, 0, 0, 0, 0, 2, 8, 0, 0, 0, 0x90, 0x40]]
     = Inr (\<lparr>template = Message_template,
             props = [(''big'', Single (BigInt 4)),
                      (''smol'', TypedArr \<lparr>ta_buffer = 1, ta_byteOffset = 0, ta_length = 3,
                                           ta_type = u8\<rparr>),
                      (''float'', Single (Number 0x4012000000000000))]\<rparr>,
            [[4, 0, 0, 0, 0, 0, 0, 0, 0, 2, 8, 0, 0, 0, 0x90, 0x40], [0, 2, 8]]) \<and>
   ta_elements [[4, 0, 0, 0, 0, 0, 0, 0, 0, 2, 8, 0, 0, 0, 0x90, 0x40], [0, 2, 8]]
       \<lparr>ta_buffer = 1, ta_byteOffset = 0, ta_length = 3, ta_type = u8\<rparr>
     = [Number (double_of_int 0), Number (double_of_int 2), Number (double_of_int 8)]"
proof -
  have "struct Message =
     Inr \<lparr>size_bytes = Num 16, alignment = Num 8,
          schema = [(''big'', \<lparr>m_type = ''i64'', m_count = 1, m_index = Num 0\<rparr>),
                    (''smol'', \<lparr>m_type = ''u8'', m_count = 3, m_index = Num 8\<rparr>),
                    (''float'', \<lparr>m_type = ''f32'', m_count = 1, m_index = Num 3\<rparr>)]\<rparr>"
    by (simp add: struct_def struct_step_def Message_def TypedArray_Message Let_def)
  then show ?thesis
    using write_Message read_Message elements_smol by simp
qed

section \<open>Validation and failure\<close>

lemma createViews_misaligned:
  "buffer_ok h buffer \<Longrightarrow> misaligned (byteOffset buffer) (alignment t) \<Longrightarrow>
   createViews h buffer t = Inl InvalidAlignment"
  by (simp add: createViews_def viewBuffer_ok)

text \<open>
  Claim C5, as amended: take a layout with a positive alignment and a buffer at least
  as long as the layout. If the buffer's starting offset is no multiple of the
  alignment, \<open>struct_read\<close> and \<open>struct_write\<close> fail with the invalid-alignment error
  (\<open>MisalignedBuffer\<close> in the specification) and the heap is unchanged. If it is a
  multiple, \<open>struct_read\<close> succeeds, and \<open>struct_write\<close> succeeds for an instance whose
  field values are well-formed. (The size is checked before the alignment, so a buffer
  that is too short fails with the other error, whatever its offset.)
\<close>

theorem alignment_checked:
  assumes "struct ms = Inr t" and "alignment t = Num al" and "0 < al" and "template s = t"
    and "buffer_ok h buffer" and "\<not> less_number (byteLength h buffer) (size_bytes t)"
  shows "if byteOffset buffer mod al \<noteq> 0
         then struct_read t buffer h = Inl InvalidAlignment \<and>
              struct_write s buffer h = (Some InvalidAlignment, h)
         else (\<exists>r h'. struct_read t buffer h = Inr (r, h')) \<and>
              (fields_ok h (buffer_of buffer) s \<longrightarrow> (\<exists>h'. struct_write s buffer h = (None, h')))"
proof (cases "byteOffset buffer mod al \<noteq> 0")
  case True
  then have "misaligned (byteOffset buffer) (alignment t)" using assms(2) by simp
  from createViews_misaligned [OF assms(5) this] True assms(4,6) show ?thesis
    by (simp add: struct_read_def struct_write_def)
next
  case False
  then have al: "\<not> misaligned (byteOffset buffer) (alignment t)" using assms(2,3) by simp
  have inv: "layout_inv t" using struct_layout_inv [OF assms(1) al] .
  from struct_read_effect [OF inv assms(5,6) al]
  have "\<exists>r h'. struct_read t buffer h = Inr (r, h')" by blast
  moreover have "\<exists>h'. struct_write s buffer h = (None, h')" if "fields_ok h (buffer_of buffer) s"
    using struct_write_effect [of s h buffer] inv assms(4,5,6) al that by blast
  ultimately show ?thesis using False by simp
qed

lemma ta_put_error: "ta_put h ta i v = (Some e, h') \<Longrightarrow> e = TypeError"
  by (cases v; cases i)
     (auto simp: ta_put_def NumericToRawBytes_def split: if_splits sum.splits)

lemma set_loop_error: "set_loop ta k vs h = (Some e, h') \<Longrightarrow> e = TypeError"
proof (induction vs arbitrary: k h)
  case Nil
  then show ?case by simp
next
  case (Cons v vs)
  show ?case
  proof (cases "ta_put h ta (Num k) v")
    case (Pair r h1)
    show ?thesis
    proof (cases r)
      case None
      with Pair Cons.prems have "set_loop ta (Suc k) vs h1 = (Some e, h')" by simp
      then show ?thesis by (rule Cons.IH)
    next
      case (Some e1)
      with Pair Cons.prems have "e = e1" by simp
      with Pair Some ta_put_error show ?thesis by blast
    qed
  qed
qed

lemma ta_set_error:
  "ta_set h ta source i = (Some e, h') \<Longrightarrow> e = TypeError \<or> e = RangeError"
  by (cases source) (auto simp: ta_set_def Let_def split: if_splits dest: set_loop_error)

lemma write_loop_error:
  "write_loop views s es h = (Some e, h') \<Longrightarrow> e = TypeError \<or> e = RangeError"
proof (induction es arbitrary: h)
  case Nil
  then show ?case by simp
next
  case (Cons p es)
  obtain n m where p: "p = (n, m)" by (cases p)
  show ?case
  proof (cases "map_of views (m_type m)")
    case None
    with Cons.prems p show ?thesis by simp
  next
    case (Some ta)
    obtain r h1 where step:
      "(case prop_of s n of Single v \<Rightarrow> ta_put h ta (m_index m) v
        | source \<Rightarrow> ta_set h ta source (m_index m)) = (r, h1)"
      by (cases "(case prop_of s n of Single v \<Rightarrow> ta_put h ta (m_index m) v
        | source \<Rightarrow> ta_set h ta source (m_index m))")
    show ?thesis
    proof (cases r)
      case None
      with Cons.prems p Some step have "write_loop views s es h1 = (Some e, h')" by simp
      then show ?thesis by (rule Cons.IH)
    next
      case (Some e1)
      with Cons.prems p \<open>map_of views (m_type m) = Some ta\<close> step have e: "e = e1" by simp
      from step Some show ?thesis unfolding e
        by (cases "prop_of s n") (auto dest: ta_put_error ta_set_error)
    qed
  qed
qed

text \<open>
  Claim C6, as amended: the size and the alignment are validated before any byte is
  stored, so a \<open>struct_write\<close> that fails with the not-enough-space or the
  invalid-alignment error leaves the heap unchanged. (A failure raised while a field
  value is stored, a \<^verbatim>\<open>TypeError\<close> or a \<^verbatim>\<open>RangeError\<close>, comes after the fields
  before it have been written.)
\<close>

theorem failed_validation_writes_nothing:
  assumes "struct_write s buffer h = (Some e, h')"
    and "e = NotEnoughSpace \<or> e = InvalidAlignment"
  shows "h' = h"
proof (cases "less_number (byteLength h buffer) (size_bytes (template s))")
  case True
  with assms(1) show ?thesis by (simp add: struct_write_def)
next
  case False
  show ?thesis
  proof (cases "createViews h buffer (template s)")
    case (Inl e1)
    with False assms(1) show ?thesis by (simp add: struct_write_def)
  next
    case (Inr views)
    with False assms(1) have "write_loop views s (schema (template s)) h = (Some e, h')"
      by (simp add: struct_write_def)
    from write_loop_error [OF this] assms(2) show ?thesis by auto
  qed
qed

lemma ta_put_frame: "b \<noteq> ta_buffer a \<Longrightarrow> snd (ta_put h a i v) ! b = h ! b"
  by (cases i) (auto simp: ta_put_def split: sum.splits)

text \<open>
  Claim C7, as amended: the sequence \<open>struct_read\<close> returns for a member with a count
  other than \<open>1\<close> is a copy (\<^verbatim>\<open>slice\<close>), not an alias: a typed array on a buffer that
  the read has allocated. The existing buffers are as before; a store through the
  sequence changes none of them, and a later change of the bytes of the buffer read is
  not visible through the sequence.
\<close>

theorem read_sequence_is_copy:
  assumes "struct ms = Inr t" and "buffer_ok h buffer"
    and "\<not> less_number (byteLength h buffer) (size_bytes t)"
    and "\<not> misaligned (byteOffset buffer) (alignment t)"
    and "(n, m) \<in> set (schema t)" and "m_count m \<noteq> 1"
  shows "\<exists>r h2 a. struct_read t buffer h = Inr (r, h2) \<and>
           map_of (props r) n = Some (TypedArr a) \<and>
           take (length h) h2 = h \<and> length h \<le> ta_buffer a \<and>
           (\<forall>i v b. b < length h \<longrightarrow> snd (ta_put h2 a i v) ! b = h ! b) \<and>
           (\<forall>bs. ta_elements (h2[buffer_of buffer := bs]) a = ta_elements h2 a)"
proof -
  have inv: "layout_inv t" using struct_layout_inv [OF assms(1,4)] .
  from layout_inv_placed [OF inv assms(5)] obtain sz al where "placed sz al m" by blast
  from placed_Constructor [OF this] obtain c where c: "TypedArray (m_type m) = Constructor c"
    by blast
  from struct_read_effect [OF inv assms(2,3,4)]
  obtain r h2 where rd: "struct_read t buffer h = Inr (r, h2)"
    and ex: "\<exists>extra. h2 = h @ extra"
    and el: "\<forall>(n, m) \<in> set (schema t). \<forall>c. TypedArray (m_type m) = Constructor c \<longrightarrow>
              (\<exists>v. map_of (props r) n = Some v \<and>
                 (if m_count m = 1 then \<exists>x. v = Single x
                  else \<exists>a. v = TypedArr a \<and> ta_ok h2 a \<and> length h \<le> ta_buffer a \<and>
                           ta_length a = m_count m \<and> ta_type a = c))"
    by blast
  from el assms(5,6) c obtain a where a: "map_of (props r) n = Some (TypedArr a)"
    "length h \<le> ta_buffer a" by fastforce
  from ex obtain extra where h2: "h2 = h @ extra" by blast
  have pre: "take (length h) h2 = h" by (simp add: h2)
  have put: "snd (ta_put h2 a i v) ! b = h ! b" if "b < length h" for i v b
  proof -
    from that a(2) have "b \<noteq> ta_buffer a" by simp
    from ta_put_frame [OF this] that show ?thesis by (simp add: h2 nth_append)
  qed
  have seq: "ta_elements (h2[buffer_of buffer := bs]) a = ta_elements h2 a" for bs
  proof -
    have "buffer_of buffer < length h" using assms(2) by (cases buffer) simp_all
    with a(2) have "buffer_of buffer \<noteq> ta_buffer a" by simp
    then show ?thesis by (intro ta_elements_cong) simp
  qed
  from rd a pre put seq show ?thesis by blast
qed

section \<open>The claims at the structure of the test suite\<close>

lemma Message_instance_props:
  "template Message_instance = Message_template"
  "prop_of Message_instance ''big'' = Single (BigInt 4)"
  "prop_of Message_instance ''smol''
     = Array [Number (double_of_int 0), Number (double_of_int 2), Number (double_of_int 8)]"
  "prop_of Message_instance ''float'' = Single (Number 0x4012000000000000)"
  by (simp_all add: Message_instance_def prop_of_def)

lemma Message_representable:
  "representable i64 (BigInt 4)" "representable u8 (Number (double_of_int 0))"
  "representable u8 (Number (double_of_int 2))" "representable u8 (Number (double_of_int 8))"
  "representable f32 (Number 0x4012000000000000)"
  by (simp_all add: representable_def Message_values to_signed_def float_to_double_4_5)

lemma Message_fields_ok: "fields_ok h b Message_instance"
  by (simp add: fields_ok_def Message_instance_props Message_template_def TypedArray_Message
      Message_representable)

theorem write_read_roundtrip_witness:
  "\<exists>h1 r h2.
     struct_write Message_instance (ArrayBufferView 0 24 16) [replicate 40 0] = (None, h1) \<and>
     struct_read Message_template (ArrayBufferView 0 24 16) h1 = Inr (r, h2) \<and>
     elements_of h2 (prop_of r ''big'') = [BigInt 4] \<and>
     elements_of h2 (prop_of r ''smol'')
       = [Number (double_of_int 0), Number (double_of_int 2), Number (double_of_int 8)] \<and>
     elements_of h2 (prop_of r ''float'') = [Number 0x4012000000000000]"
proof -
  have ok: "buffer_ok [replicate 40 0] (ArrayBufferView 0 24 16)" by simp
  have big: "\<not> less_number (byteLength [replicate 40 0] (ArrayBufferView 0 24 16))
               (size_bytes Message_template)"
    by (simp add: Message_template_def)
  have al: "\<not> misaligned (byteOffset (ArrayBufferView 0 24 16)) (alignment Message_template)"
    by (simp add: Message_template_def)
  from write_read_roundtrip
         [OF struct_Message Message_instance_props(1) ok big al Message_fields_ok]
  show ?thesis
    by (simp add: Message_template_def Message_instance_props)
qed

text \<open>
  The claim C5 as stated fails: a view that starts at byte 20, no multiple of the
  alignment 8, and is only 4 bytes long is rejected for its size, not for its
  alignment.
\<close>

theorem short_misaligned_view:
  "alignment Message_template = Num 8 \<and> (20::nat) mod 8 \<noteq> 0 \<and>
   struct_read Message_template (ArrayBufferView 0 20 4) [replicate 24 0] = Inl NotEnoughSpace \<and>
   struct_write Message_instance (ArrayBufferView 0 20 4) [replicate 24 0]
     = (Some NotEnoughSpace, [replicate 24 0])"
  by (simp add: struct_read_def struct_write_def Message_instance_props Message_template_def)

theorem alignment_checked_witness:
  "(struct_read Message_template (ArrayBufferView 0 20 16) [replicate 40 0]
      = Inl InvalidAlignment \<and>
    struct_write Message_instance (ArrayBufferView 0 20 16) [replicate 40 0]
      = (Some InvalidAlignment, [replicate 40 0])) \<and>
   (\<exists>r h'. struct_read Message_template (ArrayBufferView 0 24 16) [replicate 40 0] = Inr (r, h')) \<and>
   (\<exists>h'. struct_write Message_instance (ArrayBufferView 0 24 16) [replicate 40 0] = (None, h'))"
proof -
  have a: "alignment Message_template = Num 8" by (simp add: Message_template_def)
  have big: "\<not> less_number (byteLength [replicate 40 0] (ArrayBufferView 0 off 16))
               (size_bytes Message_template)" for off
    by (simp add: Message_template_def)
  have ok20: "buffer_ok [replicate 40 0] (ArrayBufferView 0 20 16)" by simp
  have ok24: "buffer_ok [replicate 40 0] (ArrayBufferView 0 24 16)" by simp
  from alignment_checked [OF struct_Message a _ Message_instance_props(1) ok20 big]
       alignment_checked [OF struct_Message a _ Message_instance_props(1) ok24 big]
  show ?thesis by (simp add: Message_fields_ok)
qed

text \<open>
  The claim C6 as stated fails: with nine elements for the three of \<^verbatim>\<open>smol\<close>, the
  \<^verbatim>\<open>set\<close> of the second field throws a \<^verbatim>\<open>RangeError\<close> after the first field has been
  stored, and the buffer keeps the 4 written for \<^verbatim>\<open>big\<close>.
\<close>

theorem failed_write_leaves_bytes:
  "struct_write
     \<lparr>template = Message_template,
      props = [(''big'', Single (BigInt 4)),
               (''smol'', Array (replicate 9 (Number 0))),
               (''float'', Single (Number 0x4012000000000000))]\<rparr>
     (ArrayBuffer 0) [[0, 0, 0, 0, 0, 0, 0, 0, 0, 0, 0, 0, 0, 0, 0, 0]]
   = (Some RangeError, [[4, 0, 0, 0, 0, 0, 0, 0, 0, 0, 0, 0, 0, 0, 0, 0]])"
  apply (simp add: struct_write_def createViews_Message)
  apply (simp add: Message_template_def prop_of_def ta_put_def ta_set_def store_def Message_values)
  done

theorem failed_validation_writes_nothing_witness:
  "snd (struct_write Message_instance (ArrayBuffer 0) [replicate 15 0]) = [replicate 15 0]"
proof -
  have "struct_write Message_instance (ArrayBuffer 0) [replicate 15 0]
          = (Some NotEnoughSpace, snd (struct_write Message_instance (ArrayBuffer 0) [replicate 15 0]))"
    by (simp add: struct_write_def Message_instance_props Message_template_def)
  from failed_validation_writes_nothing [OF this] show ?thesis by simp
qed

text \<open>
  The claim C7 as stated fails: the sequence read for \<^verbatim>\<open>smol\<close> is a typed array on
  buffer 1, allocated by the read; storing 8 at its index 1 changes that buffer and
  leaves buffer 0, the one that was read, as it is (its byte 9 is still 2).
\<close>

theorem write_through_sequence_not_visible:
  "struct_read Message_template (ArrayBuffer 0)
       [[4, 0, 0, 0, 0, 0, 0, 0, 0, 2, 8, 0, 0, 0, 0x90, 0x40]]
     = Inr (\<lparr>template = Message_template,
             props = [(''big'', Single (BigInt 4)),
                      (''smol'', TypedArr \<lparr>ta_buffer = 1, ta_byteOffset = 0, ta_length = 3,
                                           ta_type = u8\<rparr>),
                      (''float'', Single (Number 0x4012000000000000))]\<rparr>,
            [[4, 0, 0, 0, 0, 0, 0, 0, 0, 2, 8, 0, 0, 0, 0x90, 0x40], [0, 2, 8]]) \<and>
   ta_put [[4, 0, 0, 0, 0, 0, 0, 0, 0, 2, 8, 0, 0, 0, 0x90, 0x40], [0, 2, 8]]
       \<lparr>ta_buffer = 1, ta_byteOffset = 0, ta_length = 3, ta_type = u8\<rparr>
       (Num 1) (Number (double_of_int 8))
     = (None, [[4, 0, 0, 0, 0, 0, 0, 0, 0, 2, 8, 0, 0, 0, 0x90, 0x40], [0, 8, 8]])"
  using read_Message by (simp add: ta_put_def store_def Message_values)

theorem read_sequence_is_copy_witness:
  "\<exists>r h2 a.
     struct_read Message_template (ArrayBuffer 0) [replicate 16 0] = Inr (r, h2) \<and>
     map_of (props r) ''smol'' = Some (TypedArr a) \<and>
     take 1 h2 = [replicate 16 0] \<and> 1 \<le> ta_buffer a \<and>
     (\<forall>i v. snd (ta_put h2 a i v) ! 0 = replicate 16 0) \<and>
     (\<forall>bs. ta_elements (h2[0 := bs]) a = ta_elements h2 a)"
proof -
  have ok: "buffer_ok [replicate 16 0] (ArrayBuffer 0)" by simp
  have big: "\<not> less_number (byteLength [replicate 16 0] (ArrayBuffer 0)) (size_bytes Message_template)"
    by (simp add: Message_template_def)
  have al: "\<not> misaligned (byteOffset (ArrayBuffer 0)) (alignment Message_template)"
    by (simp add: Message_template_def)
  have m: "(''smol'', \<lparr>m_type = ''u8'', m_count = 3, m_index = Num 8\<rparr>) \<in> set (schema Message_template)"
    by (simp add: Message_template_def)
  have c: "m_count \<lparr>m_type = ''u8'', m_count = 3, m_index = Num 8\<rparr> \<noteq> 1" by simp
  from read_sequence_is_copy [OF struct_Message ok big al m c] show ?thesis by simp
qed

end
